theory Spec2Isabelle
  imports Main "HOL-Library.Word"
begin

section \<open>JavaScript strings\<close>

text \<open>
  A JavaScript string is a sequence of UTF-16 code units. Regular expressions without the
  \<open>u\<close> flag, \<open>split\<close>, \<open>indexOf\<close>, \<open>substring\<close> and \<open>startsWith\<close> all work on code units,
  so a string is modelled as a list of 16-bit words. \<open>js\<close> turns an ASCII literal into
  its code units.
\<close>

type_synonym jchar = "16 word"
type_synonym jstring = "jchar list"

definition js :: "string \<Rightarrow> jstring" where
  "js s = map (\<lambda>c. word_of_nat (of_char c)) s"

text \<open>Truthiness of an optional string field: \<open>undefined\<close> and \<open>''\<close> are falsy.\<close>

definition truthy :: "jstring option \<Rightarrow> bool" where
  "truthy v = (case v of None \<Rightarrow> False | Some s \<Rightarrow> s \<noteq> [])"

text \<open>\<open>v || ''\<close> on an optional string.\<close>

definition or_empty :: "jstring option \<Rightarrow> jstring" where
  "or_empty v = (case v of None \<Rightarrow> [] | Some s \<Rightarrow> s)"

text \<open>
  The characters matched by \<open>\s\<close> and stripped by \<open>trim\<close>: ECMAScript's WhiteSpace and
  LineTerminator code units.
\<close>

definition is_space :: "jchar \<Rightarrow> bool" where
  "is_space c \<longleftrightarrow>
     (0x09 \<le> c \<and> c \<le> 0x0D) \<or> c = 0x20 \<or> c = 0xA0 \<or> c = 0x1680 \<or>
     (0x2000 \<le> c \<and> c \<le> 0x200A) \<or> c = 0x2028 \<or> c = 0x2029 \<or> c = 0x202F \<or>
     c = 0x205F \<or> c = 0x3000 \<or> c = 0xFEFF"

text \<open>\<open>\d\<close>: the ASCII digits.\<close>

definition is_digit :: "jchar \<Rightarrow> bool" where
  "is_digit c \<longleftrightarrow> 0x30 \<le> c \<and> c \<le> 0x39"

definition trim :: "jstring \<Rightarrow> jstring" where
  "trim s = rev (dropWhile is_space (rev (dropWhile is_space s)))"

definition startsWith :: "jstring \<Rightarrow> jstring \<Rightarrow> bool" where
  "startsWith s w \<longleftrightarrow> take (length w) s = w"

definition endsWith :: "jstring \<Rightarrow> jstring \<Rightarrow> bool" where
  "endsWith s w \<longleftrightarrow> length w \<le> length s \<and> drop (length s - length w) s = w"

text \<open>\<open>s.indexOf(c)\<close> for a single character: the first index, or \<open>-1\<close>.\<close>

definition indexOf :: "jstring \<Rightarrow> jchar \<Rightarrow> int" where
  "indexOf s c = (if c \<in> set s then int (length (takeWhile (\<lambda>x. x \<noteq> c) s)) else - 1)"

text \<open>
  \<open>s.split(sep)\<close> for a non-empty separator: the pieces between the non-overlapping
  occurrences of \<open>sep\<close>, found from the left. \<open>skip\<close> counts the code units of the
  separator still to be passed over.
\<close>

fun split_go :: "jstring \<Rightarrow> nat \<Rightarrow> jstring \<Rightarrow> jstring \<Rightarrow> jstring list" where
  "split_go sep skip cur [] = [cur]"
| "split_go sep skip cur (c # cs) =
     (if 0 < skip then split_go sep (skip - 1) cur cs
      else if startsWith (c # cs) sep then cur # split_go sep (length sep - 1) [] cs
      else split_go sep 0 (cur @ [c]) cs)"

definition split :: "jstring \<Rightarrow> jstring \<Rightarrow> jstring list" where
  "split s sep = split_go sep 0 [] s"

text \<open>\<open>Array.from(new Set(xs))\<close>: a set keeps its elements in insertion order, so the
  first occurrence of every value survives.\<close>

fun set_add :: "'a list \<Rightarrow> 'a list \<Rightarrow> 'a list" where
  "set_add seen [] = seen"
| "set_add seen (x # xs) = set_add (if x \<in> set seen then seen else seen @ [x]) xs"

definition from_set :: "'a list \<Rightarrow> 'a list" where
  "from_set xs = set_add [] xs"

section \<open>Regular expressions\<close>

text \<open>
  The constructs that the regular expressions of \<open>downstream.ts\<close> use, with ECMAScript's
  backtracking order. A pattern is a sequence of pieces; \<open>step\<close> lists what a piece can
  leave of the input, the alternative that the matcher tries first coming first (a greedy
  quantifier tries the longest repetition first, a lazy one the shortest).
\<close>

datatype re =
    Lit jstring
  | Opt re
  | Star "jchar \<Rightarrow> bool"
  | Plus "jchar \<Rightarrow> bool"
  | LazyStar "jchar \<Rightarrow> bool"
  | LazyPlus "jchar \<Rightarrow> bool"
  | Times nat "jchar \<Rightarrow> bool"

fun tails_while :: "(jchar \<Rightarrow> bool) \<Rightarrow> jstring \<Rightarrow> jstring list" where
  "tails_while p [] = [[]]"
| "tails_while p (c # cs) = (c # cs) # (if p c then tails_while p cs else [])"

fun step :: "re \<Rightarrow> jstring \<Rightarrow> jstring list" where
  "step (Lit w) s = (if startsWith s w then [drop (length w) s] else [])"
| "step (Opt r) s = step r s @ [s]"
| "step (Star p) s = rev (tails_while p s)"
| "step (Plus p) s = rev (tl (tails_while p s))"
| "step (LazyStar p) s = tails_while p s"
| "step (LazyPlus p) s = tl (tails_while p s)"
| "step (Times n p) s =
     (if n \<le> length s \<and> list_all p (take n s) then [drop n s] else [])"

fun run :: "re list \<Rightarrow> jstring \<Rightarrow> jstring list" where
  "run [] s = [s]"
| "run (r # rs) s = concat (map (run rs) (step r s))"

text \<open>
  A regular expression with one capture group: the pieces before the group, the group,
  the pieces after it. \<open>exec_at\<close> matches at the start of the input and returns the
  matched text and the text of group 1, taken from the first successful path.
\<close>

type_synonym regex = "re list \<times> re list \<times> re list"

definition exec_at :: "regex \<Rightarrow> jstring \<Rightarrow> (jstring \<times> jstring) option" where
  "exec_at rx s =
     (case rx of (a, g, b) \<Rightarrow>
        (case concat (map (\<lambda>r1. concat (map (\<lambda>r2. map (\<lambda>r3. (r1, r2, r3)) (run b r2))
                                             (run g r1)))
                          (run a s)) of
           [] \<Rightarrow> None
         | (r1, r2, r3) # _ \<Rightarrow>
             Some (take (length s - length r3) s, take (length r1 - length r2) r1)))"

text \<open>\<open>s.match(rx)\<close> without the \<open>g\<close> flag: the leftmost match, or \<open>null\<close>.\<close>

fun match_first :: "regex \<Rightarrow> jstring \<Rightarrow> (jstring \<times> jstring) option" where
  "match_first rx [] = exec_at rx []"
| "match_first rx (c # cs) =
     (case exec_at rx (c # cs) of Some m \<Rightarrow> Some m | None \<Rightarrow> match_first rx cs)"

text \<open>
  \<open>s.match(rx) || []\<close> with the \<open>g\<close> flag: every match from the left, the search
  resuming where the previous match ended (one unit further after an empty match).
  \<open>skip\<close> counts the code units of the previous match still to be passed over.
\<close>

fun match_go :: "regex \<Rightarrow> nat \<Rightarrow> jstring \<Rightarrow> jstring list" where
  "match_go rx skip [] =
     (if skip = 0 then (case exec_at rx [] of Some (m, _) \<Rightarrow> [m] | None \<Rightarrow> []) else [])"
| "match_go rx skip (c # cs) =
     (if 0 < skip then match_go rx (skip - 1) cs
      else (case exec_at rx (c # cs) of
              None \<Rightarrow> match_go rx 0 cs
            | Some (m, _) \<Rightarrow> m # match_go rx (length m - 1) cs))"

definition match_all :: "regex \<Rightarrow> jstring \<Rightarrow> jstring list" where
  "match_all rx s = match_go rx 0 s"

text \<open>\<open>s.replace(rx, rep)\<close> with the \<open>g\<close> flag and a replacement without \<open>$\<close>.\<close>

fun replace_go :: "regex \<Rightarrow> jstring \<Rightarrow> nat \<Rightarrow> jstring \<Rightarrow> jstring" where
  "replace_go rx rep skip [] =
     (if skip = 0 then (case exec_at rx [] of Some _ \<Rightarrow> rep | None \<Rightarrow> []) else [])"
| "replace_go rx rep skip (c # cs) =
     (if 0 < skip then replace_go rx rep (skip - 1) cs
      else (case exec_at rx (c # cs) of
              None \<Rightarrow> c # replace_go rx rep 0 cs
            | Some (m, _) \<Rightarrow>
                if m = [] then rep @ c # replace_go rx rep 0 cs
                else rep @ replace_go rx rep (length m - 1) cs))"

definition replace_all :: "regex \<Rightarrow> jstring \<Rightarrow> jstring \<Rightarrow> jstring" where
  "replace_all rx rep s = replace_go rx rep 0 s"

subsection \<open>The patterns of the module\<close>

text \<open>\<open>[^"'\s]\<close>\<close>

definition url_char :: "jchar \<Rightarrow> bool" where
  "url_char c \<longleftrightarrow> c \<noteq> 0x22 \<and> c \<noteq> 0x27 \<and> \<not> is_space c"

text \<open>\<open>https?:\/\/[^"'\s]+?\.m3u8\<close>, the body shared by the stream patterns.\<close>

definition m3u8_body :: "re list" where
  "m3u8_body = [Lit (js ''http''), Opt (Lit (js ''s'')), Lit (js ''://''),
                LazyPlus url_char, Lit (js ''.m3u8'')]"

text \<open>\<open>/\$(https?:\/\/[^"'\s]+?\.m3u8)/g\<close> (lines 25 and 248)\<close>

definition m3u8Regex :: regex where
  "m3u8Regex = ([Lit (js ''$'')], m3u8_body, [])"

text \<open>\<open>/(https?:\/\/[^"'\s]+?\.m3u8)/g\<close> (line 139)\<close>

definition M3U8_PATTERN :: regex where
  "M3U8_PATTERN = ([], m3u8_body, [])"

text \<open>\<open>/\d{4}/\<close> (lines 50 and 210)\<close>

definition year_regex :: regex where
  "year_regex = ([Times 4 is_digit], [], [])"

text \<open>\<open>/\s+/g\<close> (line 43)\<close>

definition spaces_regex :: regex where
  "spaces_regex = ([Plus is_space], [], [])"

section \<open>Data model\<close>

text \<open>\<open>ApiSite\<close> of \<open>@/lib/config\<close>, as the module uses it.\<close>

record ApiSite =
  key :: jstring
  name :: jstring
  api :: jstring
  detail :: "jstring option"

text \<open>\<open>SearchResult\<close> of \<open>@/lib/types\<close>; \<open>id\<close>, \<open>class\<close> and \<open>type_name\<close> carry a
  prime, the plain names being taken.\<close>

record SearchResult =
  id' :: jstring
  title :: jstring
  poster :: jstring
  episodes :: "jstring list"
  source :: jstring
  source_name :: jstring
  class' :: "jstring option"
  year :: jstring
  desc :: jstring
  type_name' :: "jstring option"
  douban_id :: "int option"

record ApiSearchItem =
  vod_id :: jstring
  vod_name :: jstring
  vod_pic :: jstring
  vod_remarks :: "jstring option"
  vod_play_url :: "jstring option"
  vod_class :: "jstring option"
  vod_year :: "jstring option"
  vod_content :: "jstring option"
  vod_douban_id :: "int option"
  type_name :: "jstring option"

text \<open>
  What the module imports from \<open>@/lib/config\<close> and \<open>@/lib/utils\<close>, which are not part of
  the source under study: the request paths and headers of \<open>API_CONFIG\<close>, the page limit
  \<open>SearchDownstreamMaxPage\<close>, and the tag-stripping function (its argument can be
  \<open>undefined\<close> at line 212).
\<close>

type_synonym headers = "(jstring \<times> jstring) list"

record Env =
  search_path :: jstring
  search_pagePath :: jstring
  search_headers :: headers
  detail_path :: jstring
  detail_headers :: headers
  MAX_SEARCH_PAGES :: int
  cleanHtmlTags :: "jstring option \<Rightarrow> jstring"

section \<open>Item normalisation\<close>

text \<open>
  Lines 35-39 and 252-256: the matches are deduplicated first; then each loses its first
  code unit (the dollar sign) and is cut at its first opening parenthesis, if it has one
  behind position 0.
\<close>

definition strip_link :: "jstring \<Rightarrow> jstring" where
  "strip_link m =
     (let link = drop 1 m; parenIndex = indexOf link 0x28
      in if parenIndex > 0 then take (nat parenIndex) link else link)"

definition dedupe_links :: "jstring list \<Rightarrow> jstring list" where
  "dedupe_links ms = map strip_link (from_set ms)"

text \<open>Lines 27-32: the play-source group with the most matches, the first one on a tie.\<close>

definition pick_episodes :: "jstring list \<Rightarrow> jstring list" where
  "pick_episodes groups =
     fold (\<lambda>url episodes.
             let matches = match_all m3u8Regex url
             in if length matches > length episodes then matches else episodes)
          groups []"

text \<open>Lines 22-33: the matches kept for an item.\<close>

definition item_matches :: "ApiSearchItem \<Rightarrow> jstring list" where
  "item_matches item =
     (if truthy (vod_play_url item)
      then pick_episodes (split (or_empty (vod_play_url item)) (js ''$$$''))
      else [])"

text \<open>Lines 49-51 and 209-211.\<close>

definition normalize_year :: "jstring option \<Rightarrow> jstring" where
  "normalize_year vy =
     (case vy of
        None \<Rightarrow> js ''unknown''
      | Some y \<Rightarrow>
          if y = [] then js ''unknown''
          else (case match_first year_regex y of
                  None \<Rightarrow> []
                | Some (m, _) \<Rightarrow> if m = [] then [] else m))"

definition transformApiSearchItem :: "Env \<Rightarrow> ApiSearchItem \<Rightarrow> ApiSite \<Rightarrow> SearchResult" where
  "transformApiSearchItem env item apiSite =
     \<lparr> id' = vod_id item,
       title = replace_all spaces_regex (js '' '') (trim (vod_name item)),
       poster = vod_pic item,
       episodes = dedupe_links (item_matches item),
       source = key apiSite,
       source_name = name apiSite,
       class' = vod_class item,
       year = normalize_year (vod_year item),
       desc = cleanHtmlTags env (Some (or_empty (vod_content item))),
       type_name' = type_name item,
       douban_id = vod_douban_id item \<rparr>"

section \<open>Errors, requests and the network\<close>

text \<open>
  What a rejected \<open>fetch\<close> throws: an \<open>AbortError\<close> when its signal fired, a network
  failure otherwise. The other exceptions of the module: \<open>new Error(message)\<close>, the
  \<open>SyntaxError\<close> of \<open>response.json()\<close> on a body that is not JSON, the \<open>TypeError\<close> of a
  property read on \<open>null\<close>, and the \<open>URIError\<close> of \<open>encodeURIComponent\<close>.
\<close>

datatype fetch_error = AbortError | NetworkFailure

datatype error = Error jstring | FetchError fetch_error | SyntaxError | TypeError | URIError

text \<open>
  The parsed body \<open>data\<close>. \<open>JNull\<close> is the JSON value \<open>null\<close>. \<open>JObject l pc\<close> is any other
  value: \<open>l\<close> is its \<open>list\<close> property (\<open>Absent\<close> when missing or falsy, \<open>NotArray\<close> when
  truthy without being an array), \<open>pc\<close> its \<open>pagecount\<close> property when that is an integer
  (\<open>None\<close> when missing or \<open>null\<close>; other kinds of value are not modelled).
\<close>

datatype jlist = Absent | NotArray | Arr "ApiSearchItem list"

datatype json = JNull | JObject jlist "int option"

record response =
  status :: nat
  body_text :: jstring
  body_json :: "json option"

definition ok :: "response \<Rightarrow> bool" where
  "ok r \<longleftrightarrow> 200 \<le> status r \<and> status r \<le> 299"

datatype fetched = Rejected fetch_error | Response response

text \<open>
  A request as passed to \<open>fetch\<close>. \<open>timeout\<close> is \<open>Some t\<close> when the call passes the signal of
  an \<open>AbortController\<close> created for this very call, with a timer that aborts it after \<open>t\<close>
  milliseconds (the timer is cleared as soon as the \<open>fetch\<close> has settled), and \<open>None\<close>
  when the call passes no signal.
\<close>

record request =
  url :: jstring
  headers :: headers
  timeout :: "nat option"

text \<open>
  The network is a parameter: for the \<open>n\<close>-th \<open>fetch\<close> of a call (in the order of issue)
  it gives the time after which the request settles and how it settles when nothing
  aborts it. A signal that fires first turns the outcome into an \<open>AbortError\<close>.
\<close>

type_synonym network = "nat \<Rightarrow> request \<Rightarrow> nat \<times> fetched"

definition fetch :: "network \<Rightarrow> nat \<Rightarrow> request \<Rightarrow> fetched" where
  "fetch net n req =
     (case net n req of (latency, out) \<Rightarrow>
        (case timeout req of
           None \<Rightarrow> out
         | Some t \<Rightarrow> if t \<le> latency then Rejected AbortError else out))"

definition settle_time :: "network \<Rightarrow> nat \<Rightarrow> request \<Rightarrow> nat" where
  "settle_time net n req =
     (case net n req of (latency, out) \<Rightarrow>
        (case timeout req of None \<Rightarrow> latency | Some t \<Rightarrow> min t latency))"

section \<open>Library functions used to build URLs and messages\<close>

text \<open>\<open>n.toString()\<close> for a natural number.\<close>

definition digit_char :: "nat \<Rightarrow> jchar" where
  "digit_char d = word_of_nat (48 + d)"

fun toString :: "nat \<Rightarrow> jstring" where
  "toString n = (if n < 10 then [digit_char n] else toString (n div 10) @ [digit_char (n mod 10)])"

declare toString.simps [simp del]

text \<open>\<open>s.replace(pat, rep)\<close> with a string pattern: the first occurrence only. The
  replacements of the module (a percent-encoded query, a decimal number) contain no \<open>$\<close>,
  so the special replacement patterns play no part.\<close>

fun replace_first :: "jstring \<Rightarrow> jstring \<Rightarrow> jstring \<Rightarrow> jstring" where
  "replace_first [] pat rep = (if pat = [] then rep else [])"
| "replace_first (c # cs) pat rep =
     (if startsWith (c # cs) pat then rep @ drop (length pat) (c # cs)
      else c # replace_first cs pat rep)"

text \<open>
  \<open>encodeURIComponent\<close>: the unreserved characters stay, every other code point is
  written as the percent-escaped bytes of its UTF-8 encoding, and an unpaired surrogate
  throws \<open>URIError\<close>.
\<close>

definition unescaped :: "jchar \<Rightarrow> bool" where
  "unescaped c \<longleftrightarrow>
     (0x41 \<le> c \<and> c \<le> 0x5A) \<or> (0x61 \<le> c \<and> c \<le> 0x7A) \<or> (0x30 \<le> c \<and> c \<le> 0x39) \<or>
     c = 0x2D \<or> c = 0x5F \<or> c = 0x2E \<or> c = 0x21 \<or> c = 0x7E \<or> c = 0x2A \<or> c = 0x27 \<or>
     c = 0x28 \<or> c = 0x29"

definition is_lead :: "jchar \<Rightarrow> bool" where
  "is_lead c \<longleftrightarrow> 0xD800 \<le> c \<and> c \<le> 0xDBFF"

definition is_trail :: "jchar \<Rightarrow> bool" where
  "is_trail c \<longleftrightarrow> 0xDC00 \<le> c \<and> c \<le> 0xDFFF"

definition utf8 :: "nat \<Rightarrow> nat list" where
  "utf8 cp =
     (if cp < 0x80 then [cp]
      else if cp < 0x800 then [0xC0 + cp div 64, 0x80 + cp mod 64]
      else if cp < 0x10000 then [0xE0 + cp div 4096, 0x80 + cp div 64 mod 64, 0x80 + cp mod 64]
      else [0xF0 + cp div 262144, 0x80 + cp div 4096 mod 64, 0x80 + cp div 64 mod 64,
            0x80 + cp mod 64])"

definition hex_char :: "nat \<Rightarrow> jchar" where
  "hex_char d = (if d < 10 then word_of_nat (48 + d) else word_of_nat (55 + d))"

definition percent :: "nat list \<Rightarrow> jstring" where
  "percent bytes = concat (map (\<lambda>b. [0x25, hex_char (b div 16), hex_char (b mod 16)]) bytes)"

definition pair_code_point :: "jchar \<Rightarrow> jchar \<Rightarrow> nat" where
  "pair_code_point hi lo = (unat hi - 0xD800) * 0x400 + (unat lo - 0xDC00) + 0x10000"

fun encodeURIComponent :: "jstring \<Rightarrow> error + jstring" where
  "encodeURIComponent [] = Inr []"
| "encodeURIComponent (c # cs) =
     (if unescaped c then
        (case encodeURIComponent cs of Inl e \<Rightarrow> Inl e | Inr r \<Rightarrow> Inr (c # r))
      else if is_trail c then Inl URIError
      else if is_lead c then
        (case cs of
           [] \<Rightarrow> Inl URIError
         | d # ds \<Rightarrow>
             if is_trail d then
               (case encodeURIComponent ds of
                  Inl e \<Rightarrow> Inl e
                | Inr r \<Rightarrow> Inr (percent (utf8 (pair_code_point c d)) @ r))
             else Inl URIError)
      else
        (case encodeURIComponent cs of
           Inl e \<Rightarrow> Inl e
         | Inr r \<Rightarrow> Inr (percent (utf8 (unat c)) @ r)))"

section \<open>Search\<close>

text \<open>
  \<open>fetchSearchResults\<close> (lines 58-89). \<open>search_request\<close> is the request of lines 63-66,
  \<open>page_try\<close> the body of the \<open>try\<close> block applied to what the \<open>fetch\<close> gave, and
  \<open>page_results\<close> adds the \<open>catch\<close>, which turns every exception into the empty array
  (the messages written to the console are not modelled).
\<close>

definition search_request :: "Env \<Rightarrow> jstring \<Rightarrow> request" where
  "search_request env u = \<lparr> url = u, headers = search_headers env, timeout = Some 8000 \<rparr>"

definition page_try :: "Env \<Rightarrow> ApiSite \<Rightarrow> fetched \<Rightarrow> error + SearchResult list" where
  "page_try env apiSite out =
     (case out of
        Rejected e \<Rightarrow> Inl (FetchError e)
      | Response r \<Rightarrow>
          if \<not> ok r then Inr []
          else (case body_json r of
                  None \<Rightarrow> Inl SyntaxError
                | Some JNull \<Rightarrow> Inr []
                | Some (JObject Absent pc) \<Rightarrow> Inr []
                | Some (JObject NotArray pc) \<Rightarrow> Inr []
                | Some (JObject (Arr items) pc) \<Rightarrow>
                    if length items = 0 then Inr []
                    else Inr (map (\<lambda>item. transformApiSearchItem env item apiSite) items)))"

definition page_results :: "Env \<Rightarrow> ApiSite \<Rightarrow> fetched \<Rightarrow> SearchResult list" where
  "page_results env apiSite out =
     (case page_try env apiSite out of Inl e \<Rightarrow> [] | Inr rs \<Rightarrow> rs)"

definition fetchSearchResults ::
  "Env \<Rightarrow> network \<Rightarrow> nat \<Rightarrow> jstring \<Rightarrow> ApiSite \<Rightarrow> SearchResult list" where
  "fetchSearchResults env net n u apiSite =
     page_results env apiSite (fetch net n (search_request env u))"

text \<open>
  \<open>Promise.all\<close> over promises that all fulfil: each promise is given by the time at which
  it settles and its value. The promises settle in the order of their times; each stores
  its value in the slot of its own index; the result is the array of the slots once
  every slot is filled (\<open>None\<close>: the joined promise never settles).
\<close>

definition promise_all :: "(nat \<times> 'a) list \<Rightarrow> 'a list option" where
  "promise_all ps =
     (let completion = sort_key (\<lambda>k. fst (ps ! k)) [0..<length ps];
          slots = fold (\<lambda>k sl. sl[k := Some (snd (ps ! k))]) completion
                       (replicate (length ps) None)
      in those slots)"

text \<open>Lines 123-125, for the already encoded query.\<close>

definition pageUrl :: "Env \<Rightarrow> ApiSite \<Rightarrow> jstring \<Rightarrow> int \<Rightarrow> jstring" where
  "pageUrl env apiSite q page =
     replace_first (replace_first (api apiSite @ search_pagePath env) (js ''{query}'') q)
                   (js ''{page}'') (toString (nat page))"

text \<open>
  The \<open>try\<close> block of \<open>searchFromApi\<close> (lines 99-130), with the list of the requests issued.
  \<open>q\<close> is \<open>encodeURIComponent(query)\<close>, which line 124 computes again from the same query.
  The first request has index 0, the page-count request index 1, and the request for
  page \<open>p\<close> index \<open>p\<close>, because the loop of lines 122-127 calls \<open>fetchSearchResults\<close> for
  the pages in ascending order and every call issues its \<open>fetch\<close> before it first awaits.
\<close>

definition count_request :: "Env \<Rightarrow> jstring \<Rightarrow> request" where
  "count_request env u = \<lparr> url = u, headers = search_headers env, timeout = None \<rparr>"

definition search_try ::
  "Env \<Rightarrow> network \<Rightarrow> ApiSite \<Rightarrow> jstring \<Rightarrow> jstring \<Rightarrow>
     (error + SearchResult list) option \<times> request list" where
  "search_try env net apiSite q initialUrl =
     (let initialResults = fetchSearchResults env net 0 initialUrl apiSite;
          log1 = [search_request env initialUrl]
      in if length initialResults = 0 then (Some (Inr []), log1)
         else
           (let log2 = log1 @ [count_request env initialUrl]
            in case fetch net 1 (count_request env initialUrl) of
                 Rejected e \<Rightarrow> (Some (Inl (FetchError e)), log2)
               | Response r \<Rightarrow>
                   (case body_json r of
                      None \<Rightarrow> (Some (Inl SyntaxError), log2)
                    | Some JNull \<Rightarrow> (Some (Inl TypeError), log2)
                    | Some (JObject l pc) \<Rightarrow>
                        (let pageCount = (case pc of None \<Rightarrow> 1
                                          | Some n \<Rightarrow> if n = 0 then 1 else n);
                             pagesToFetch = min pageCount (MAX_SEARCH_PAGES env)
                         in if pagesToFetch \<le> 1 then (Some (Inr initialResults), log2)
                            else
                              (let pages = [2..pagesToFetch];
                                   pagePromises =
                                     map (\<lambda>page.
                                            (settle_time net (nat page)
                                               (search_request env (pageUrl env apiSite q page)),
                                             fetchSearchResults env net (nat page)
                                               (pageUrl env apiSite q page) apiSite))
                                         pages;
                                   log3 = log2 @ map (\<lambda>page. search_request env
                                                        (pageUrl env apiSite q page)) pages
                               in case promise_all pagePromises of
                                    None \<Rightarrow> (None, log3)
                                  | Some additionalResults \<Rightarrow>
                                      (Some (Inr (initialResults @ concat additionalResults)),
                                       log3))))))"

text \<open>
  \<open>searchFromApi\<close> (lines 91-136): the URL is built before the \<open>try\<close> block is entered
  (line 96); the \<open>catch\<close> of lines 132-135 turns an exception of the block into the empty
  array. The result is \<open>Some (Inr rs)\<close> when the promise fulfils with \<open>rs\<close>, \<open>Some (Inl e)\<close>
  when it rejects with \<open>e\<close>.
\<close>

definition searchFromApi ::
  "Env \<Rightarrow> network \<Rightarrow> ApiSite \<Rightarrow> jstring \<Rightarrow>
     (error + SearchResult list) option \<times> request list" where
  "searchFromApi env net apiSite query =
     (case encodeURIComponent query of
        Inl e \<Rightarrow> (Some (Inl e), [])
      | Inr q \<Rightarrow>
          (case search_try env net apiSite q (api apiSite @ search_path env @ q) of
             (Some (Inl e), log) \<Rightarrow> (Some (Inr []), log)
           | (r, log) \<Rightarrow> (r, log)))"

section \<open>Detail\<close>

text \<open>The messages of lines 162, 173 and 235, as UTF-16 code units.\<close>

definition msg_request_failed :: jstring where
  "msg_request_failed = [0x8BE6, 0x60C5, 0x8BF7, 0x6C42, 0x5931, 0x8D25, 0x3A, 0x20]"

definition msg_invalid_payload :: jstring where
  "msg_invalid_payload =
     [0x83B7, 0x53D6, 0x5230, 0x7684, 0x8BE6, 0x60C5, 0x5185, 0x5BB9, 0x65E0, 0x6548]"

definition msg_page_request_failed :: jstring where
  "msg_page_request_failed =
     [0x8BE6, 0x60C5, 0x9875, 0x8BF7, 0x6C42, 0x5931, 0x8D25, 0x3A, 0x20]"

definition detail_request :: "Env \<Rightarrow> jstring \<Rightarrow> request" where
  "detail_request env u = \<lparr> url = u, headers = detail_headers env, timeout = Some 10000 \<rparr>"

text \<open>Lines 179-194: the episodes of the first play source, one per \<open>#\<close>-separated
  entry, the entry's second \<open>$\<close>-separated part.\<close>

definition structured_episodes :: "ApiSearchItem \<Rightarrow> jstring list" where
  "structured_episodes videoDetail =
     (if truthy (vod_play_url videoDetail) then
        (case split (or_empty (vod_play_url videoDetail)) (js ''$$$'') of
           [] \<Rightarrow> []
         | mainSource # _ \<Rightarrow>
             filter (\<lambda>u. u \<noteq> [] \<and> (startsWith u (js ''http://'') \<or> startsWith u (js ''https://'')))
               (map (\<lambda>ep. case split ep (js ''$'') of
                             _ # part1 # _ \<Rightarrow> part1
                           | _ \<Rightarrow> [])
                    (split mainSource (js ''#''))))
      else [])"

text \<open>\<open>link.replace(/^\$/, '')\<close> (line 198)\<close>

definition strip_dollar :: "jstring \<Rightarrow> jstring" where
  "strip_dollar link = (case link of [] \<Rightarrow> [] | c # cs \<Rightarrow> if c = 0x24 then cs else link)"

text \<open>Lines 196-199.\<close>

definition detail_episodes :: "ApiSearchItem \<Rightarrow> jstring list" where
  "detail_episodes videoDetail =
     (let episodes0 = structured_episodes videoDetail
      in if length episodes0 = 0 \<and> truthy (vod_content videoDetail)
         then map strip_dollar (match_all M3U8_PATTERN (or_empty (vod_content videoDetail)))
         else episodes0)"

text \<open>Lines 201-215.\<close>

definition detail_result :: "Env \<Rightarrow> ApiSite \<Rightarrow> jstring \<Rightarrow> ApiSearchItem \<Rightarrow> SearchResult" where
  "detail_result env apiSite ident videoDetail =
     \<lparr> id' = ident,
       title = vod_name videoDetail,
       poster = vod_pic videoDetail,
       episodes = detail_episodes videoDetail,
       source = key apiSite,
       source_name = name apiSite,
       class' = vod_class videoDetail,
       year = normalize_year (vod_year videoDetail),
       desc = cleanHtmlTags env (vod_content videoDetail),
       type_name' = type_name videoDetail,
       douban_id = vod_douban_id videoDetail \<rparr>"

text \<open>The JSON branch of \<open>getDetailFromApi\<close> (lines 149-215) after the \<open>fetch\<close>.\<close>

definition detail_of_fetched ::
  "Env \<Rightarrow> ApiSite \<Rightarrow> jstring \<Rightarrow> fetched \<Rightarrow> error + SearchResult" where
  "detail_of_fetched env apiSite ident out =
     (case out of
        Rejected e \<Rightarrow> Inl (FetchError e)
      | Response r \<Rightarrow>
          if \<not> ok r then Inl (Error (msg_request_failed @ toString (status r)))
          else (case body_json r of
                  None \<Rightarrow> Inl SyntaxError
                | Some JNull \<Rightarrow> Inl (Error msg_invalid_payload)
                | Some (JObject Absent pc) \<Rightarrow> Inl (Error msg_invalid_payload)
                | Some (JObject NotArray pc) \<Rightarrow> Inl (Error msg_invalid_payload)
                | Some (JObject (Arr []) pc) \<Rightarrow> Inl (Error msg_invalid_payload)
                | Some (JObject (Arr (videoDetail # _)) pc) \<Rightarrow>
                    Inr (detail_result env apiSite ident videoDetail)))"

subsection \<open>The HTML branch\<close>

definition is_hex_lower :: "jchar \<Rightarrow> bool" where
  "is_hex_lower c \<longleftrightarrow> (0x61 \<le> c \<and> c \<le> 0x66) \<or> (0x30 \<le> c \<and> c \<le> 0x39)"

text \<open>\<open>/\$(https?:\/\/[^"'\s]+?\/\d{8}\/\d+_[a-f0-9]+\/index\.m3u8)/g\<close> (line 243)\<close>

definition ffzyPattern :: regex where
  "ffzyPattern =
     ([Lit (js ''$'')],
      [Lit (js ''http''), Opt (Lit (js ''s'')), Lit (js ''://''), LazyPlus url_char,
       Lit (js ''/''), Times 8 is_digit, Lit (js ''/''), Plus is_digit, Lit (js ''_''),
       Plus is_hex_lower, Lit (js ''/index.m3u8'')],
      [])"

text \<open>\<open>/<h1[^>]*>([^<]+)<\/h1>/\<close> (line 258)\<close>

definition h1_regex :: regex where
  "h1_regex =
     ([Lit (js ''<h1''), Star (\<lambda>c. c \<noteq> 0x3E), Lit (js ''>'')],
      [Plus (\<lambda>c. c \<noteq> 0x3C)],
      [Lit (js ''</h1>'')])"

text \<open>\<open>/<div[^>]*class=["']sketch["'][^>]*>([\s\S]*?)<\/div>/\<close> (line 262)\<close>

definition sketch_regex :: regex where
  "sketch_regex =
     ([Lit (js ''<div''), Star (\<lambda>c. c \<noteq> 0x3E), Lit (js ''class=''),
       Times 1 (\<lambda>c. c = 0x22 \<or> c = 0x27), Lit (js ''sketch''),
       Times 1 (\<lambda>c. c = 0x22 \<or> c = 0x27), Star (\<lambda>c. c \<noteq> 0x3E), Lit (js ''>'')],
      [LazyStar (\<lambda>c. True)],
      [Lit (js ''</div>'')])"

text \<open>\<open>/(https?:\/\/[^"'\s]+?\.jpg)/g\<close> (line 266)\<close>

definition jpg_regex :: regex where
  "jpg_regex =
     ([], [Lit (js ''http''), Opt (Lit (js ''s'')), Lit (js ''://''), LazyPlus url_char,
           Lit (js ''.jpg'')], [])"

text \<open>\<open>/>(\d{4})</\<close> (line 269)\<close>

definition tag_year_regex :: regex where
  "tag_year_regex = ([Lit (js ''>'')], [Times 4 is_digit], [Lit (js ''<'')])"

text \<open>Lines 239-250: the matches kept for a page.\<close>

definition scrape_matches :: "ApiSite \<Rightarrow> jstring \<Rightarrow> jstring list" where
  "scrape_matches apiSite html =
     (let matches = (if key apiSite = js ''ffzy'' then match_all ffzyPattern html else [])
      in if length matches = 0 then match_all m3u8Regex html else matches)"

text \<open>Lines 258-284.\<close>

definition scrape_result :: "Env \<Rightarrow> ApiSite \<Rightarrow> jstring \<Rightarrow> jstring \<Rightarrow> SearchResult" where
  "scrape_result env apiSite ident html =
     \<lparr> id' = ident,
       title = (case match_first h1_regex html of None \<Rightarrow> [] | Some (m, g) \<Rightarrow> trim g),
       poster = (case match_all jpg_regex html of [] \<Rightarrow> [] | m # _ \<Rightarrow> trim m),
       episodes = dedupe_links (scrape_matches apiSite html),
       source = key apiSite,
       source_name = name apiSite,
       class' = Some [],
       year = (case match_first tag_year_regex html of
                 None \<Rightarrow> js ''unknown'' | Some (m, g) \<Rightarrow> g),
       desc = (case match_first sketch_regex html of
                 None \<Rightarrow> [] | Some (m, g) \<Rightarrow> cleanHtmlTags env (Some g)),
       type_name' = Some [],
       douban_id = Some 0 \<rparr>"

text \<open>\<open>handleSpecialSourceDetail\<close> (lines 218-285) after the \<open>fetch\<close>.\<close>

definition scrape_of_fetched ::
  "Env \<Rightarrow> ApiSite \<Rightarrow> jstring \<Rightarrow> fetched \<Rightarrow> error + SearchResult" where
  "scrape_of_fetched env apiSite ident out =
     (case out of
        Rejected e \<Rightarrow> Inl (FetchError e)
      | Response r \<Rightarrow>
          if \<not> ok r then Inl (Error (msg_page_request_failed @ toString (status r)))
          else Inr (scrape_result env apiSite ident (body_text r)))"

definition handleSpecialSourceDetail ::
  "Env \<Rightarrow> network \<Rightarrow> jstring \<Rightarrow> ApiSite \<Rightarrow> (error + SearchResult) \<times> request list" where
  "handleSpecialSourceDetail env net ident apiSite =
     (let detailUrl = or_empty (detail apiSite) @ js ''/index.php/vod/detail/id/'' @ ident
                      @ js ''.html'';
          req = detail_request env detailUrl
      in (scrape_of_fetched env apiSite ident (fetch net 0 req), [req]))"

text \<open>\<open>getDetailFromApi\<close> (lines 141-216), with the list of the requests issued.\<close>

definition getDetailFromApi ::
  "Env \<Rightarrow> network \<Rightarrow> ApiSite \<Rightarrow> jstring \<Rightarrow> (error + SearchResult) \<times> request list" where
  "getDetailFromApi env net apiSite ident =
     (if truthy (detail apiSite) then handleSpecialSourceDetail env net ident apiSite
      else
        (let detailUrl = api apiSite @ detail_path env @ ident;
             req = detail_request env detailUrl
         in (detail_of_fetched env apiSite ident (fetch net 0 req), [req])))"

section \<open>Notions used to state the properties\<close>

text \<open>An absolute \<open>http(s)\<close> URL.\<close>

definition http_url :: "jstring \<Rightarrow> bool" where
  "http_url u \<longleftrightarrow> startsWith u (js ''http://'') \<or> startsWith u (js ''https://'')"

text \<open>The shape of a match of the dollar-prefixed stream patterns, and of the pattern
  without the dollar sign.\<close>

definition dollar_link :: "jstring \<Rightarrow> bool" where
  "dollar_link m \<longleftrightarrow>
     (\<exists>sch rest. m = js ''$'' @ sch @ rest @ js ''.m3u8'' \<and>
                 (sch = js ''http://'' \<or> sch = js ''https://''))"

definition plain_link :: "jstring \<Rightarrow> bool" where
  "plain_link m \<longleftrightarrow>
     (\<exists>sch rest. m = sch @ rest @ js ''.m3u8'' \<and>
                 (sch = js ''http://'' \<or> sch = js ''https://''))"

text \<open>Four consecutive digits start at position \<open>i\<close> of \<open>s\<close>.\<close>

definition digit_run_at :: "jstring \<Rightarrow> nat \<Rightarrow> bool" where
  "digit_run_at s i \<longleftrightarrow> i + 4 \<le> length s \<and> list_all is_digit (take 4 (drop i s))"

text \<open>
  \<open>ys\<close> lists the values of \<open>xs\<close> once each, in the order of their first occurrence in
  \<open>xs\<close>.
\<close>

definition first_index :: "'a list \<Rightarrow> 'a \<Rightarrow> nat" where
  "first_index xs a = length (takeWhile (\<lambda>x. x \<noteq> a) xs)"

definition keeps_first :: "'a list \<Rightarrow> 'a list \<Rightarrow> bool" where
  "keeps_first xs ys \<longleftrightarrow>
     distinct ys \<and> set ys = set xs \<and>
     sorted_wrt (\<lambda>a b. first_index xs a < first_index xs b) ys"

text \<open>
  \<open>best\<close> is the longest of the lists \<open>ms\<close>, the earliest one among the longest; it is
  empty when all of them are.
\<close>

definition richest_first :: "'a list list \<Rightarrow> 'a list \<Rightarrow> bool" where
  "richest_first ms best \<longleftrightarrow>
     (\<forall>m\<in>set ms. length m \<le> length best) \<and>
     (best = [] \<or>
      (\<exists>i<length ms. ms ! i = best \<and> (\<forall>j<i. length (ms ! j) < length best)))"

text \<open>The parsed body has no non-empty \<open>list\<close> array (lines 76 and 167-172).\<close>

definition lacks_list :: "json \<Rightarrow> bool" where
  "lacks_list data =
     (case data of
        JNull \<Rightarrow> True
      | JObject Absent pc \<Rightarrow> True
      | JObject NotArray pc \<Rightarrow> True
      | JObject (Arr items) pc \<Rightarrow> items = [])"

text \<open>\<open>Math.min(data.pagecount || 1, MAX_SEARCH_PAGES)\<close> (lines 114-115).\<close>

definition pages_to_fetch :: "Env \<Rightarrow> int option \<Rightarrow> int" where
  "pages_to_fetch env pc =
     min (case pc of None \<Rightarrow> 1 | Some n \<Rightarrow> if n = 0 then 1 else n) (MAX_SEARCH_PAGES env)"

section \<open>Example inputs\<close>

definition ex_env :: Env where
  "ex_env =
     \<lparr> search_path = js ''?ac=videolist&wd='',
       search_pagePath = js ''?ac=videolist&wd={query}&pg={page}'',
       search_headers = [(js ''Accept'', js ''application/json'')],
       detail_path = js ''?ac=videolist&ids='',
       detail_headers = [(js ''Accept'', js ''application/json'')],
       MAX_SEARCH_PAGES = 3,
       cleanHtmlTags = or_empty \<rparr>"

definition ex_site :: ApiSite where
  "ex_site = \<lparr> key = js ''demo'', name = js ''Demo'', api = js ''https://v.example/api.php'',
               detail = None \<rparr>"

definition ex_item :: ApiSearchItem where
  "ex_item =
     \<lparr> vod_id = js ''42'',
       vod_name = js '' Foo  Bar '',
       vod_pic = js ''https://v.example/p.png'',
       vod_remarks = None,
       vod_play_url = Some (js (''1$https://a.example/1.m3u8$$$'' @
         ''1$https://b.example/1.m3u8#2$https://b.example/2.m3u8#3$https://b.example/1.m3u8'')),
       vod_class = None,
       vod_year = Some (js ''2011'' @ [0x5E74]),
       vod_content = Some (js ''<p>text</p>''),
       vod_douban_id = None,
       type_name = None \<rparr>"

text \<open>A successful JSON response carrying the given items and page count.\<close>

definition ex_response :: "ApiSearchItem list \<Rightarrow> int option \<Rightarrow> response" where
  "ex_response items pc =
     \<lparr> status = 200, body_text = [], body_json = Some (JObject (Arr items) pc) \<rparr>"

text \<open>A network that answers every request with the given items, after 100 ms, and
  one that answers every request with the given status and a body that is not JSON.\<close>

definition ex_net_of :: "ApiSearchItem list \<Rightarrow> network" where
  "ex_net_of items n req = (100, Response (ex_response items None))"

definition ex_net_status :: "nat \<Rightarrow> network" where
  "ex_net_status st n req = (100, Response \<lparr> status = st, body_text = [], body_json = None \<rparr>)"

text \<open>Items whose links are in the content field only, carry parentheses, or are not
  stream manifests.\<close>

definition ex_content_item :: ApiSearchItem where
  "ex_content_item =
     ex_item\<lparr>vod_play_url := None,
       vod_content := Some (js ''see http://c.example/v.m3u8 or $https://d.example/w.m3u8'')\<rparr>"

definition ex_paren_item :: ApiSearchItem where
  "ex_paren_item =
     ex_item\<lparr>vod_play_url :=
       Some (js ''1$http://a.example/v(1).m3u8#2$http://a.example/v(2).m3u8'')\<rparr>"

definition ex_mp4_item :: ApiSearchItem where
  "ex_mp4_item =
     ex_item\<lparr>vod_play_url :=
       Some (js ''1$https://a.example/1.mp4#2$https://a.example/1.mp4'')\<rparr>"

text \<open>
  A network of five pages: the \<open>n\<close>-th request is answered with one item whose id is
  \<open>n\<close>; the request for page 2 takes longer than the one for page 3.
\<close>

definition ex_page_item :: "nat \<Rightarrow> ApiSearchItem" where
  "ex_page_item n = ex_item\<lparr>vod_id := toString n\<rparr>"

definition ex_net :: network where
  "ex_net n req =
     (if n = 2 then 300 else 100, Response (ex_response [ex_page_item n] (Some 5)))"

text \<open>The same network, except that the second request (the page-count request of a
  search) fails.\<close>

definition ex_net_count_fails :: network where
  "ex_net_count_fails n req = (if n = 1 then (50, Rejected NetworkFailure) else ex_net n req)"

section \<open>Properties of the library functions\<close>

lemma tails_while_hd: "tails_while p s = s # tl (tails_while p s)"
  by (cases s) auto

lemma tails_while_iff:
  "r \<in> set (tails_while p s) \<longleftrightarrow> (\<exists>pre. s = pre @ r \<and> (\<forall>c\<in>set pre. p c))"
proof (induction s)
  case Nil
  then show ?case by auto
next
  case (Cons a s)
  show ?case
  proof
    assume "r \<in> set (tails_while p (a # s))"
    then consider "r = a # s" | "p a" "r \<in> set (tails_while p s)"
      by (auto split: if_splits)
    then show "\<exists>pre. a # s = pre @ r \<and> (\<forall>c\<in>set pre. p c)"
    proof cases
      case 1
      then show ?thesis by (intro exI[of _ "[]"]) simp
    next
      case 2
      then obtain pre where "s = pre @ r" "\<forall>c\<in>set pre. p c" using Cons.IH by blast
      with 2 show ?thesis by (intro exI[of _ "a # pre"]) simp
    qed
  next
    assume "\<exists>pre. a # s = pre @ r \<and> (\<forall>c\<in>set pre. p c)"
    then obtain pre where pre: "a # s = pre @ r" "\<forall>c\<in>set pre. p c" by blast
    show "r \<in> set (tails_while p (a # s))"
    proof (cases pre)
      case Nil
      with pre have "r = a # s" by simp
      then show ?thesis by (subst tails_while_hd) simp
    next
      case (Cons b pre')
      with pre have "b = a" "s = pre' @ r" "p a" "\<forall>c\<in>set pre'. p c" by auto
      then show ?thesis using Cons.IH by auto
    qed
  qed
qed

lemma tl_tails_while_iff:
  "r \<in> set (tl (tails_while p s)) \<longleftrightarrow> (\<exists>pre. pre \<noteq> [] \<and> s = pre @ r \<and> (\<forall>c\<in>set pre. p c))"
proof (cases s)
  case Nil
  then show ?thesis by simp
next
  case (Cons a s')
  have "r \<in> set (tl (tails_while p s)) \<longleftrightarrow> p a \<and> r \<in> set (tails_while p s')"
    using Cons by simp
  also have "\<dots> \<longleftrightarrow> p a \<and> (\<exists>pre. s' = pre @ r \<and> (\<forall>c\<in>set pre. p c))"
    by (simp add: tails_while_iff)
  also have "\<dots> \<longleftrightarrow> (\<exists>pre. pre \<noteq> [] \<and> s = pre @ r \<and> (\<forall>c\<in>set pre. p c))"
  proof
    assume "p a \<and> (\<exists>pre. s' = pre @ r \<and> (\<forall>c\<in>set pre. p c))"
    then obtain pre where "p a" "s' = pre @ r" "\<forall>c\<in>set pre. p c" by blast
    then show "\<exists>pre. pre \<noteq> [] \<and> s = pre @ r \<and> (\<forall>c\<in>set pre. p c)"
      using Cons by (intro exI[of _ "a # pre"]) simp
  next
    assume "\<exists>pre. pre \<noteq> [] \<and> s = pre @ r \<and> (\<forall>c\<in>set pre. p c)"
    then obtain pre where pre: "pre \<noteq> []" "s = pre @ r" "\<forall>c\<in>set pre. p c" by blast
    then obtain b pre' where "pre = b # pre'" by (cases pre) auto
    with pre Cons show "p a \<and> (\<exists>pre. s' = pre @ r \<and> (\<forall>c\<in>set pre. p c))" by auto
  qed
  finally show ?thesis .
qed

lemma startsWith_iff: "startsWith s w \<longleftrightarrow> (\<exists>r. s = w @ r)"
  unfolding startsWith_def
  by (metis append_eq_conv_conj append_take_drop_id)

lemma step_Lit_iff: "r \<in> set (step (Lit w) s) \<longleftrightarrow> s = w @ r"
  by (auto simp: startsWith_iff)

lemma step_LazyPlus_iff:
  "r \<in> set (step (LazyPlus p) s) \<longleftrightarrow> (\<exists>pre. pre \<noteq> [] \<and> s = pre @ r \<and> (\<forall>c\<in>set pre. p c))"
  by (simp add: tl_tails_while_iff)

lemma step_Plus_iff:
  "r \<in> set (step (Plus p) s) \<longleftrightarrow> (\<exists>pre. pre \<noteq> [] \<and> s = pre @ r \<and> (\<forall>c\<in>set pre. p c))"
  by (simp add: tl_tails_while_iff)

lemma step_Times_iff:
  "r \<in> set (step (Times n p) s) \<longleftrightarrow> (\<exists>pre. length pre = n \<and> s = pre @ r \<and> (\<forall>c\<in>set pre. p c))"
proof
  assume "r \<in> set (step (Times n p) s)"
  then have "n \<le> length s" "list_all p (take n s)" "r = drop n s"
    by (auto split: if_splits)
  then show "\<exists>pre. length pre = n \<and> s = pre @ r \<and> (\<forall>c\<in>set pre. p c)"
    by (intro exI[of _ "take n s"]) (auto simp: list_all_iff)
next
  assume "\<exists>pre. length pre = n \<and> s = pre @ r \<and> (\<forall>c\<in>set pre. p c)"
  then show "r \<in> set (step (Times n p) s)"
    by (auto simp: list_all_iff)
qed

lemma step_suffix: "r \<in> set (step x s) \<Longrightarrow> \<exists>pre. s = pre @ r"
proof (induction x arbitrary: r)
  case (Lit w)
  then show ?case using step_Lit_iff by blast
next
  case (Opt x)
  then show ?case by auto
next
  case (Star p)
  then show ?case by (auto simp: tails_while_iff)
next
  case (Plus p)
  then show ?case by (auto simp: tl_tails_while_iff)
next
  case (LazyStar p)
  then show ?case by (auto simp: tails_while_iff)
next
  case (LazyPlus p)
  then show ?case by (auto simp: tl_tails_while_iff)
next
  case (Times n p)
  then show ?case by (auto simp: step_Times_iff simp del: step.simps)
qed

lemma run_Cons_iff: "r \<in> set (run (x # xs) s) \<longleftrightarrow> (\<exists>m. m \<in> set (step x s) \<and> r \<in> set (run xs m))"
  by auto

lemma run_suffix: "r \<in> set (run xs s) \<Longrightarrow> \<exists>pre. s = pre @ r"
proof (induction xs arbitrary: s)
  case Nil
  then show ?case by simp
next
  case (Cons x xs)
  then obtain m where m: "m \<in> set (step x s)" "r \<in> set (run xs m)"
    by (auto simp del: step.simps)
  from step_suffix[OF m(1)] Cons.IH[OF m(2)] show ?case by auto
qed

lemma exec_at_SomeD:
  assumes "exec_at (a, g, b) s = Some (m, grp)"
  shows "\<exists>r1 r2 r3. r1 \<in> set (run a s) \<and> r2 \<in> set (run g r1) \<and> r3 \<in> set (run b r2) \<and>
           s = m @ r3 \<and> r1 = grp @ r2"
proof -
  let ?L = "concat (map (\<lambda>r1. concat (map (\<lambda>r2. map (\<lambda>r3. (r1, r2, r3)) (run b r2)) (run g r1))) (run a s))"
  from assms obtain r1 r2 r3 rest where L: "?L = (r1, r2, r3) # rest"
    and m: "m = take (length s - length r3) s" and grp: "grp = take (length r1 - length r2) r1"
    by (auto simp: exec_at_def split: list.splits)
  have "(r1, r2, r3) \<in> set ?L" using L by simp
  then have in1: "r1 \<in> set (run a s)" and in2: "r2 \<in> set (run g r1)" and in3: "r3 \<in> set (run b r2)"
    by auto
  from run_suffix[OF in1] obtain p1 where p1: "s = p1 @ r1" by blast
  from run_suffix[OF in2] obtain p2 where p2: "r1 = p2 @ r2" by blast
  from run_suffix[OF in3] obtain p3 where p3: "r2 = p3 @ r3" by blast
  have "s = m @ r3" using m p1 p2 p3 by simp
  moreover have "r1 = grp @ r2" using grp p2 by simp
  ultimately show ?thesis using in1 in2 in3 by blast
qed

lemma ex3I: "P a b c \<Longrightarrow> \<exists>x y z. P x y z"
  by blast

lemma match_go_Nil_mem:
  "m \<in> set (match_go rx k []) \<Longrightarrow> \<exists>g. exec_at rx [] = Some (m, g)"
  by (cases "k = 0"; cases "exec_at rx []") auto

lemma match_go_mem:
  "m \<in> set (match_go rx k s) \<Longrightarrow> \<exists>pre t g. s = pre @ t \<and> exec_at rx t = Some (m, g)"
proof (induction s arbitrary: k)
  case Nil
  from match_go_Nil_mem[OF this] obtain g where "exec_at rx [] = Some (m, g)" by blast
  then have "[] = [] @ [] \<and> exec_at rx [] = Some (m, g)" by simp
  then show ?case by (rule ex3I)
next
  case (Cons c cs)
  have step: "\<exists>pre t g. c # cs = pre @ t \<and> exec_at rx t = Some (m, g)"
    if "m \<in> set (match_go rx j cs)" for j
  proof -
    from Cons.IH[OF that] obtain pre t g where "cs = pre @ t" "exec_at rx t = Some (m, g)" by blast
    then have "c # cs = (c # pre) @ t \<and> exec_at rx t = Some (m, g)" by simp
    then show ?thesis by (rule ex3I)
  qed
  show ?case
  proof (cases "0 < k")
    case True
    with Cons.prems have "m \<in> set (match_go rx (k - 1) cs)" by simp
    then show ?thesis by (rule step)
  next
    case False
    show ?thesis
    proof (cases "exec_at rx (c # cs)")
      case None
      with False Cons.prems have "m \<in> set (match_go rx 0 cs)" by simp
      then show ?thesis by (rule step)
    next
      case (Some a)
      obtain m' g' where a: "a = (m', g')" by (cases a)
      from Cons.prems False Some a have "m \<in> set (m' # match_go rx (length m' - 1) cs)"
        by simp
      then consider "m = m'" | "m \<in> set (match_go rx (length m' - 1) cs)"
        by auto
      then show ?thesis
      proof cases
        case 1
        with Some a have "c # cs = [] @ (c # cs) \<and> exec_at rx (c # cs) = Some (m, g')" by simp
        then show ?thesis by (rule ex3I)
      next
        case 2
        then show ?thesis by (rule step)
      qed
    qed
  qed
qed

lemma match_all_mem:
  "m \<in> set (match_all rx s) \<Longrightarrow> \<exists>pre t g. s = pre @ t \<and> exec_at rx t = Some (m, g)"
  unfolding match_all_def by (rule match_go_mem)

lemma run_Nil_iff: "r \<in> set (run [] s) \<longleftrightarrow> r = s"
  by simp

lemma step_Opt_iff: "r \<in> set (step (Opt x) s) \<longleftrightarrow> r \<in> set (step x s) \<or> r = s"
  by auto

lemma js_append: "js (a @ b) = js a @ js b"
  by (simp add: js_def)

lemma run_m3u8_body:
  assumes "r \<in> set (run m3u8_body s)"
  shows "\<exists>sch body. s = sch @ body @ js ''.m3u8'' @ r \<and> (sch = js ''http://'' \<or> sch = js ''https://'')
           \<and> body \<noteq> [] \<and> (\<forall>c\<in>set body. url_char c)"
proof -
  from assms obtain r1 r2 r3 r4 where
    1: "r1 \<in> set (step (Lit (js ''http'')) s)" and
    2: "r2 \<in> set (step (Opt (Lit (js ''s''))) r1)" and
    3: "r3 \<in> set (step (Lit (js ''://'')) r2)" and
    4: "r4 \<in> set (step (LazyPlus url_char) r3)" and
    5: "r \<in> set (step (Lit (js ''.m3u8'')) r4)"
    unfolding m3u8_body_def run_Cons_iff run_Nil_iff by blast
  from 1 have s: "s = js ''http'' @ r1" by (simp only: step_Lit_iff)
  from 2 have r1: "r1 = js ''s'' @ r2 \<or> r1 = r2"
    unfolding step_Opt_iff step_Lit_iff by blast
  from 3 have r2: "r2 = js ''://'' @ r3" by (simp only: step_Lit_iff)
  from 4 obtain body where body: "body \<noteq> []" "r3 = body @ r4" "\<forall>c\<in>set body. url_char c"
    unfolding step_LazyPlus_iff by blast
  from 5 have r4: "r4 = js ''.m3u8'' @ r" by (simp only: step_Lit_iff)
  have a1: "js ''http'' @ js ''s'' @ js ''://'' = js ''https://''"
    and a2: "js ''http'' @ js ''://'' = js ''http://''"
    by (simp_all add: js_def)
  from r1 show ?thesis
  proof
    assume "r1 = js ''s'' @ r2"
    with s r2 body(2) r4 have "s = (js ''http'' @ js ''s'' @ js ''://'') @ body @ js ''.m3u8'' @ r"
      by (simp only: append_assoc)
    then have "s = js ''https://'' @ body @ js ''.m3u8'' @ r" by (simp only: a1)
    with body show ?thesis by blast
  next
    assume "r1 = r2"
    with s r2 body(2) r4 have "s = (js ''http'' @ js ''://'') @ body @ js ''.m3u8'' @ r"
      by (simp only: append_assoc)
    then have "s = js ''http://'' @ body @ js ''.m3u8'' @ r" by (simp only: a2)
    with body show ?thesis by blast
  qed
qed

lemma exec_at_m3u8Regex:
  assumes "exec_at m3u8Regex s = Some (m, g)"
  shows "dollar_link m"
proof -
  from assms obtain r1 r2 r3 where
    a: "r1 \<in> set (run [Lit (js ''$'')] s)" and b: "r2 \<in> set (run m3u8_body r1)" and
    c: "r3 \<in> set (run [] r2)" and s: "s = m @ r3"
    unfolding m3u8Regex_def using exec_at_SomeD by blast
  from a have s1: "s = js ''$'' @ r1"
    unfolding run_Cons_iff run_Nil_iff step_Lit_iff by simp
  from run_m3u8_body[OF b] obtain sch body where
    r1: "r1 = sch @ body @ js ''.m3u8'' @ r2" and sch: "sch = js ''http://'' \<or> sch = js ''https://''"
    by blast
  from c have "r3 = r2" by simp
  with s s1 r1 have "m @ r2 = (js ''$'' @ sch @ body @ js ''.m3u8'') @ r2" by simp
  then have "m = js ''$'' @ sch @ body @ js ''.m3u8''" by (simp only: append_same_eq)
  with sch show ?thesis unfolding dollar_link_def by blast
qed

lemma exec_at_M3U8_PATTERN:
  assumes "exec_at M3U8_PATTERN s = Some (m, g)"
  shows "plain_link m"
proof -
  from assms obtain r1 r2 r3 where
    a: "r1 \<in> set (run [] s)" and b: "r2 \<in> set (run m3u8_body r1)" and
    c: "r3 \<in> set (run [] r2)" and s: "s = m @ r3"
    unfolding M3U8_PATTERN_def using exec_at_SomeD by blast
  from a have s1: "r1 = s" by simp
  from run_m3u8_body[OF b] obtain sch body where
    r1: "r1 = sch @ body @ js ''.m3u8'' @ r2" and sch: "sch = js ''http://'' \<or> sch = js ''https://''"
    by blast
  from c have "r3 = r2" by simp
  with s s1 r1 have "m @ r2 = (sch @ body @ js ''.m3u8'') @ r2" by simp
  then have "m = sch @ body @ js ''.m3u8''" by (simp only: append_same_eq)
  with sch show ?thesis unfolding plain_link_def by blast
qed

lemma run_ffzy_body:
  assumes "r \<in> set (run (fst (snd ffzyPattern)) s)"
  shows "\<exists>sch rest. s = sch @ rest @ js ''.m3u8'' @ r \<and> (sch = js ''http://'' \<or> sch = js ''https://'')"
proof -
  from assms obtain r1 r2 r3 r4 r5 r6 r7 r8 r9 r10 where
    1: "r1 \<in> set (step (Lit (js ''http'')) s)" and
    2: "r2 \<in> set (step (Opt (Lit (js ''s''))) r1)" and
    3: "r3 \<in> set (step (Lit (js ''://'')) r2)" and
    4: "r4 \<in> set (step (LazyPlus url_char) r3)" and
    5: "r5 \<in> set (step (Lit (js ''/'')) r4)" and
    6: "r6 \<in> set (step (Times 8 is_digit) r5)" and
    7: "r7 \<in> set (step (Lit (js ''/'')) r6)" and
    8: "r8 \<in> set (step (Plus is_digit) r7)" and
    9: "r9 \<in> set (step (Lit (js ''_'')) r8)" and
    10: "r10 \<in> set (step (Plus is_hex_lower) r9)" and
    11: "r \<in> set (step (Lit (js ''/index.m3u8'')) r10)"
    unfolding ffzyPattern_def fst_conv snd_conv run_Cons_iff run_Nil_iff by blast
  from 1 have s: "s = js ''http'' @ r1" by (simp only: step_Lit_iff)
  from 2 have r1: "r1 = js ''s'' @ r2 \<or> r1 = r2"
    unfolding step_Opt_iff step_Lit_iff by blast
  from 3 have r2: "r2 = js ''://'' @ r3" by (simp only: step_Lit_iff)
  from step_suffix[OF 4] obtain p4 where r3: "r3 = p4 @ r4" by blast
  from step_suffix[OF 5] obtain p5 where r4: "r4 = p5 @ r5" by blast
  from step_suffix[OF 6] obtain p6 where r5: "r5 = p6 @ r6" by blast
  from step_suffix[OF 7] obtain p7 where r6: "r6 = p7 @ r7" by blast
  from step_suffix[OF 8] obtain p8 where r7: "r7 = p8 @ r8" by blast
  from step_suffix[OF 9] obtain p9 where r8: "r8 = p9 @ r9" by blast
  from step_suffix[OF 10] obtain p10 where r9: "r9 = p10 @ r10" by blast
  from 11 have r10: "r10 = js ''/index.m3u8'' @ r" by (simp only: step_Lit_iff)
  have idx: "js ''/index.m3u8'' = js ''/index'' @ js ''.m3u8''" by (simp add: js_def)
  have a1: "js ''http'' @ js ''s'' @ js ''://'' = js ''https://''"
    and a2: "js ''http'' @ js ''://'' = js ''http://''"
    by (simp_all add: js_def)
  let ?rest = "p4 @ p5 @ p6 @ p7 @ p8 @ p9 @ p10 @ js ''/index''"
  have r3': "r3 = ?rest @ js ''.m3u8'' @ r"
    by (simp only: r3 r4 r5 r6 r7 r8 r9 r10 idx append_assoc)
  from r1 show ?thesis
  proof
    assume "r1 = js ''s'' @ r2"
    with s r2 have "s = (js ''http'' @ js ''s'' @ js ''://'') @ r3" by (simp only: append_assoc)
    then have "s = js ''https://'' @ ?rest @ js ''.m3u8'' @ r" using r3' by (simp only: a1)
    then show ?thesis by blast
  next
    assume "r1 = r2"
    with s r2 have "s = (js ''http'' @ js ''://'') @ r3" by (simp only: append_assoc)
    then have "s = js ''http://'' @ ?rest @ js ''.m3u8'' @ r" using r3' by (simp only: a2)
    then show ?thesis by blast
  qed
qed

lemma exec_at_ffzyPattern:
  assumes "exec_at ffzyPattern s = Some (m, g)"
  shows "dollar_link m"
proof -
  have ff: "ffzyPattern = ([Lit (js ''$'')], fst (snd ffzyPattern), [])"
    by (simp add: ffzyPattern_def)
  from assms obtain r1 r2 r3 where
    a: "r1 \<in> set (run [Lit (js ''$'')] s)" and b: "r2 \<in> set (run (fst (snd ffzyPattern)) r1)" and
    c: "r3 \<in> set (run [] r2)" and s: "s = m @ r3"
    using exec_at_SomeD[of "[Lit (js ''$'')]" "fst (snd ffzyPattern)" "[]" s m g] ff by auto
  from a have s1: "s = js ''$'' @ r1"
    unfolding run_Cons_iff run_Nil_iff step_Lit_iff by simp
  from run_ffzy_body[OF b] obtain sch body where
    r1: "r1 = sch @ body @ js ''.m3u8'' @ r2" and sch: "sch = js ''http://'' \<or> sch = js ''https://''"
    by blast
  from c have "r3 = r2" by simp
  with s s1 r1 have "m @ r2 = (js ''$'' @ sch @ body @ js ''.m3u8'') @ r2" by simp
  then have "m = js ''$'' @ sch @ body @ js ''.m3u8''" by (simp only: append_same_eq)
  with sch show ?thesis unfolding dollar_link_def by blast
qed

lemma match_all_m3u8Regex: "m \<in> set (match_all m3u8Regex s) \<Longrightarrow> dollar_link m"
  using match_all_mem exec_at_m3u8Regex by blast

lemma match_all_ffzyPattern: "m \<in> set (match_all ffzyPattern s) \<Longrightarrow> dollar_link m"
  using match_all_mem exec_at_ffzyPattern by blast

lemma match_all_M3U8_PATTERN: "m \<in> set (match_all M3U8_PATTERN s) \<Longrightarrow> plain_link m"
  using match_all_mem exec_at_M3U8_PATTERN by blast

lemma first_index_append_old: "a \<in> set pre \<Longrightarrow> first_index (pre @ xs) a = first_index pre a"
  unfolding first_index_def by (induction pre) auto

lemma first_index_less: "a \<in> set pre \<Longrightarrow> first_index pre a < length pre"
  unfolding first_index_def
  by (induction pre) auto

lemma first_index_append_new: "x \<notin> set pre \<Longrightarrow> first_index (pre @ [x]) x = length pre"
  unfolding first_index_def by (induction pre) auto

lemma keeps_first_snoc:
  assumes "keeps_first pre seen"
  shows "keeps_first (pre @ [x]) (if x \<in> set seen then seen else seen @ [x])"
proof -
  from assms have d: "distinct seen" and s: "set seen = set pre"
    and o: "sorted_wrt (\<lambda>a b. first_index pre a < first_index pre b) seen"
    by (simp_all add: keeps_first_def)
  have o': "sorted_wrt (\<lambda>a b. first_index (pre @ [x]) a < first_index (pre @ [x]) b) seen"
    using o s by (auto simp: first_index_append_old intro: sorted_wrt_mono_rel[rotated])
  show ?thesis
  proof (cases "x \<in> set seen")
    case True
    with d s o' show ?thesis by (auto simp: keeps_first_def)
  next
    case False
    then have xp: "x \<notin> set pre" using s by simp
    have "\<forall>a\<in>set seen. first_index (pre @ [x]) a < first_index (pre @ [x]) x"
      using s xp by (simp add: first_index_append_old first_index_append_new first_index_less)
    with False d s o' show ?thesis
      by (auto simp: keeps_first_def sorted_wrt_append)
  qed
qed

lemma set_add_keeps_first:
  "keeps_first pre seen \<Longrightarrow> keeps_first (pre @ xs) (set_add seen xs)"
proof (induction xs arbitrary: pre seen)
  case Nil
  then show ?case by simp
next
  case (Cons x xs)
  from keeps_first_snoc[OF Cons.prems, of x]
  have "keeps_first ((pre @ [x]) @ xs) (set_add (if x \<in> set seen then seen else seen @ [x]) xs)"
    by (rule Cons.IH)
  then show ?case by simp
qed

lemma from_set_keeps_first: "keeps_first xs (from_set xs)"
proof -
  have "keeps_first [] ([] :: 'a list)" by (simp add: keeps_first_def)
  from set_add_keeps_first[OF this, of xs] show ?thesis by (simp add: from_set_def)
qed

lemma distinct_from_set: "distinct (from_set xs)"
  using from_set_keeps_first[of xs] by (simp add: keeps_first_def)

lemma set_from_set: "set (from_set xs) = set xs"
  using from_set_keeps_first[of xs] by (simp add: keeps_first_def)

lemma fold_pick:
  fixes ms :: "'a list list"
  defines "f \<equiv> (\<lambda>m ep. if length ep < length m then m else ep)"
  shows "length acc \<le> length (fold f ms acc) \<and>
         (\<forall>m\<in>set ms. length m \<le> length (fold f ms acc)) \<and>
         (fold f ms acc = acc \<or>
          (\<exists>i<length ms. ms ! i = fold f ms acc \<and> length acc < length (fold f ms acc) \<and>
              (\<forall>j<i. length (ms ! j) < length (fold f ms acc))))"
proof (induction ms arbitrary: acc)
  case Nil
  then show ?case by simp
next
  case (Cons m ms)
  let ?acc' = "f m acc"
  let ?p = "fold f ms ?acc'"
  have fold: "fold f (m # ms) acc = ?p" by simp
  from Cons.IH[of ?acc'] have
    1: "length ?acc' \<le> length ?p" and 2: "\<forall>m\<in>set ms. length m \<le> length ?p" and
    3: "?p = ?acc' \<or> (\<exists>i<length ms. ms ! i = ?p \<and> length ?acc' < length ?p \<and>
              (\<forall>j<i. length (ms ! j) < length ?p))"
    by blast+
  have a: "length acc \<le> length ?acc'" and b: "length m \<le> length ?acc'"
    by (simp_all add: f_def)
  have g1: "length acc \<le> length ?p" using a 1 by linarith
  have g2: "\<forall>m'\<in>set (m # ms). length m' \<le> length ?p" using b 1 2 by auto
  have g3: "?p = acc \<or> (\<exists>i<length (m # ms). (m # ms) ! i = ?p \<and> length acc < length ?p \<and>
              (\<forall>j<i. length ((m # ms) ! j) < length ?p))"
    using 3
  proof
    assume eq: "?p = ?acc'"
    show ?thesis
    proof (cases "length acc < length m")
      case True
      then have "?acc' = m" by (simp add: f_def)
      with eq True have "0 < length (m # ms) \<and> (m # ms) ! 0 = ?p \<and> length acc < length ?p \<and>
              (\<forall>j<0. length ((m # ms) ! j) < length ?p)" by simp
      then show ?thesis by blast
    next
      case False
      then have "?acc' = acc" by (simp add: f_def)
      with eq show ?thesis by simp
    qed
  next
    assume "\<exists>i<length ms. ms ! i = ?p \<and> length ?acc' < length ?p \<and>
              (\<forall>j<i. length (ms ! j) < length ?p)"
    then obtain i where i: "i < length ms" "ms ! i = ?p" "length ?acc' < length ?p"
       "\<forall>j<i. length (ms ! j) < length ?p" by blast
    have "\<forall>j<Suc i. length ((m # ms) ! j) < length ?p"
    proof (intro allI impI)
      fix j assume "j < Suc i"
      then show "length ((m # ms) ! j) < length ?p"
        using i(3,4) b by (cases j) auto
    qed
    with i a have "Suc i < length (m # ms) \<and> (m # ms) ! Suc i = ?p \<and> length acc < length ?p \<and>
              (\<forall>j<Suc i. length ((m # ms) ! j) < length ?p)" by simp
    then show ?thesis by blast
  qed
  show ?case unfolding fold using g1 g2 g3 by blast
qed

lemma pick_episodes_fold:
  "pick_episodes groups =
     fold (\<lambda>m ep. if length ep < length m then m else ep) (map (match_all m3u8Regex) groups) []"
  unfolding pick_episodes_def by (simp add: fold_map comp_def Let_def)

lemma pick_episodes_richest:
  "richest_first (map (match_all m3u8Regex) groups) (pick_episodes groups)"
proof -
  let ?ms = "map (match_all m3u8Regex) groups"
  let ?f = "\<lambda>m ep. if length ep < length m then m else (ep :: jstring list)"
  from fold_pick[of "[]" ?ms] have
    2: "\<forall>m\<in>set ?ms. length m \<le> length (fold ?f ?ms [])" and
    3: "fold ?f ?ms [] = [] \<or> (\<exists>i<length ?ms. ?ms ! i = fold ?f ?ms [] \<and> length ([]::jstring list) < length (fold ?f ?ms []) \<and>
              (\<forall>j<i. length (?ms ! j) < length (fold ?f ?ms [])))"
    by blast+
  from 3 have "fold ?f ?ms [] = [] \<or> (\<exists>i<length ?ms. ?ms ! i = fold ?f ?ms [] \<and>
              (\<forall>j<i. length (?ms ! j) < length (fold ?f ?ms [])))" by blast
  with 2 show ?thesis unfolding richest_first_def pick_episodes_fold by blast 
qed

lemma pick_episodes_mem:
  "m \<in> set (pick_episodes groups) \<Longrightarrow> \<exists>g\<in>set groups. m \<in> set (match_all m3u8Regex g)"
proof -
  assume m: "m \<in> set (pick_episodes groups)"
  then have ne: "pick_episodes groups \<noteq> []" by auto
  from pick_episodes_richest[of groups] ne obtain i where
    "i < length groups" "map (match_all m3u8Regex) groups ! i = pick_episodes groups"
    unfolding richest_first_def by auto
  then have "groups ! i \<in> set groups" "match_all m3u8Regex (groups ! i) = pick_episodes groups"
    by auto
  with m show ?thesis by metis
qed

lemma exec_at_year:
  "exec_at year_regex s = (if digit_run_at s 0 then Some (take 4 s, []) else None)"
  by (simp add: exec_at_def year_regex_def digit_run_at_def)

lemma digit_run_at_Cons: "digit_run_at (c # cs) (Suc i) = digit_run_at cs i"
  by (auto simp: digit_run_at_def)

lemma digit_run_at_Nil: "\<not> digit_run_at [] i"
  by (simp add: digit_run_at_def)

lemma match_first_year_None:
  "match_first year_regex y = None \<longleftrightarrow> (\<forall>i. \<not> digit_run_at y i)"
proof (induction y)
  case Nil
  then show ?case by (simp add: exec_at_year digit_run_at_Nil)
next
  case (Cons c cs)
  show ?case
  proof (cases "digit_run_at (c # cs) 0")
    case True
    then have "match_first year_regex (c # cs) \<noteq> None" by (simp add: exec_at_year)
    with True show ?thesis by blast
  next
    case False
    then have "match_first year_regex (c # cs) = match_first year_regex cs"
      by (simp add: exec_at_year)
    moreover have "(\<forall>i. \<not> digit_run_at (c # cs) i) \<longleftrightarrow> (\<forall>i. \<not> digit_run_at cs i)"
    proof
      assume a: "\<forall>i. \<not> digit_run_at (c # cs) i"
      show "\<forall>i. \<not> digit_run_at cs i"
      proof
        fix i from a have "\<not> digit_run_at (c # cs) (Suc i)" by blast
        then show "\<not> digit_run_at cs i" by (simp add: digit_run_at_Cons)
      qed
    next
      assume a: "\<forall>i. \<not> digit_run_at cs i"
      show "\<forall>i. \<not> digit_run_at (c # cs) i"
      proof
        fix i show "\<not> digit_run_at (c # cs) i"
          using False a by (cases i) (simp_all add: digit_run_at_Cons)
      qed
    qed
    ultimately show ?thesis using Cons.IH by simp
  qed
qed

lemma match_first_year_Some:
  "digit_run_at y i \<Longrightarrow> (\<forall>j<i. \<not> digit_run_at y j) \<Longrightarrow>
     match_first year_regex y = Some (take 4 (drop i y), [])"
proof (induction y arbitrary: i)
  case Nil
  then show ?case by (simp add: digit_run_at_Nil)
next
  case (Cons c cs)
  show ?case
  proof (cases i)
    case 0
    with Cons.prems show ?thesis by (simp add: exec_at_year)
  next
    case (Suc k)
    with Cons.prems have no0: "\<not> digit_run_at (c # cs) 0" by blast
    from Cons.prems Suc have k: "digit_run_at cs k" by (simp add: digit_run_at_Cons)
    have "\<forall>j<k. \<not> digit_run_at cs j"
    proof (intro allI impI)
      fix j assume "j < k"
      then have "Suc j < i" using Suc by simp
      with Cons.prems have "\<not> digit_run_at (c # cs) (Suc j)" by blast
      then show "\<not> digit_run_at cs j" by (simp add: digit_run_at_Cons)
    qed
    from Cons.IH[OF k this] have "match_first year_regex cs = Some (take 4 (drop k cs), [])" .
    with no0 Suc show ?thesis by (simp add: exec_at_year)
  qed
qed

lemma normalize_year_cases:
  "(\<not> truthy vy \<longrightarrow> normalize_year vy = js ''unknown'') \<and>
   (\<forall>y i. vy = Some y \<and> digit_run_at y i \<and> (\<forall>j<i. \<not> digit_run_at y j) \<longrightarrow>
        normalize_year vy = take 4 (drop i y)) \<and>
   (\<forall>y. vy = Some y \<and> y \<noteq> [] \<and> (\<forall>i. \<not> digit_run_at y i) \<longrightarrow> normalize_year vy = [])"
proof (intro conjI allI impI)
  assume "\<not> truthy vy"
  then show "normalize_year vy = js ''unknown''"
    by (cases vy) (auto simp: truthy_def normalize_year_def)
next
  fix y i assume a: "vy = Some y \<and> digit_run_at y i \<and> (\<forall>j<i. \<not> digit_run_at y j)"
  then have ne: "y \<noteq> []" using digit_run_at_Nil by blast
  from a have d: "digit_run_at y i" by blast
  from a match_first_year_Some[of y i]
  have m: "match_first year_regex y = Some (take 4 (drop i y), [])" by blast
  from d have "take 4 (drop i y) \<noteq> []" by (auto simp: digit_run_at_def)
  with a ne m show "normalize_year vy = take 4 (drop i y)"
    by (simp add: normalize_year_def)
next
  fix y assume a: "vy = Some y \<and> y \<noteq> [] \<and> (\<forall>i. \<not> digit_run_at y i)"
  then have "match_first year_regex y = None" using match_first_year_None by blast
  with a show "normalize_year vy = []" by (simp add: normalize_year_def)
qed

lemma js_dollar: "js ''$'' = [0x24]"
  by (simp add: js_def)

lemma scheme_no_paren:
  "sch = js ''http://'' \<or> sch = js ''https://'' \<Longrightarrow> \<forall>c\<in>set sch. c \<noteq> 0x28"
  by (auto simp: js_def)

lemma http_url_append:
  "sch = js ''http://'' \<or> sch = js ''https://'' \<Longrightarrow> http_url (sch @ x)"
  unfolding http_url_def startsWith_iff by blast

lemma strip_link_eq:
  "strip_link m =
     (if 0x28 \<in> set (drop 1 m) \<and> takeWhile (\<lambda>c. c \<noteq> 0x28) (drop 1 m) \<noteq> []
      then takeWhile (\<lambda>c. c \<noteq> 0x28) (drop 1 m) else drop 1 m)"
proof -
  have "take (length (takeWhile (\<lambda>c. c \<noteq> 0x28) (drop 1 m))) (drop 1 m)
          = takeWhile (\<lambda>c. c \<noteq> 0x28) (drop 1 m)"
    by (rule takeWhile_eq_take[symmetric])
  then show ?thesis
    by (simp add: strip_link_def indexOf_def Let_def)
qed

lemma strip_link_dollar_link:
  assumes "dollar_link m"
  shows "strip_link m =
           (if 0x28 \<in> set (drop 1 m) then takeWhile (\<lambda>c. c \<noteq> 0x28) (drop 1 m) else drop 1 m)"
    and "http_url (strip_link m)"
proof -
  from assms obtain sch rest where m: "m = js ''$'' @ sch @ rest @ js ''.m3u8''"
    and sch: "sch = js ''http://'' \<or> sch = js ''https://''"
    unfolding dollar_link_def by blast
  have link: "drop 1 m = sch @ rest @ js ''.m3u8''" by (simp add: m js_dollar)
  have tw: "takeWhile (\<lambda>c. c \<noteq> 0x28) (drop 1 m)
              = sch @ takeWhile (\<lambda>c. c \<noteq> 0x28) (rest @ js ''.m3u8'')"
    unfolding link using scheme_no_paren[OF sch] by (simp add: takeWhile_append2)
  have ne: "sch \<noteq> []" using sch by (auto simp: js_def)
  with tw have ne': "takeWhile (\<lambda>c. c \<noteq> 0x28) (drop 1 m) \<noteq> []" by simp
  show 1: "strip_link m =
           (if 0x28 \<in> set (drop 1 m) then takeWhile (\<lambda>c. c \<noteq> 0x28) (drop 1 m) else drop 1 m)"
    using ne' by (simp add: strip_link_eq)
  show "http_url (strip_link m)"
  proof (cases "0x28 \<in> set (drop 1 m)")
    case True
    with 1 tw have "strip_link m = sch @ takeWhile (\<lambda>c. c \<noteq> 0x28) (rest @ js ''.m3u8'')" by simp
    then show ?thesis using http_url_append[OF sch] by simp
  next
    case False
    with 1 link have "strip_link m = sch @ rest @ js ''.m3u8''" by simp
    then show ?thesis using http_url_append[OF sch] by simp
  qed
qed

lemma endsWith_append: "endsWith (x @ w) w"
  by (simp add: endsWith_def)

lemma strip_link_no_paren:
  assumes "dollar_link m" "0x28 \<notin> set m"
  shows "strip_link m = drop 1 m" and "endsWith (strip_link m) (js ''.m3u8'')"
proof -
  from assms(2) have np: "0x28 \<notin> set (drop 1 m)" by (meson in_set_dropD)
  then show 1: "strip_link m = drop 1 m" by (simp add: strip_link_eq)
  from assms(1) obtain sch rest where m: "m = js ''$'' @ sch @ rest @ js ''.m3u8''"
    unfolding dollar_link_def by blast
  have "drop 1 m = (sch @ rest) @ js ''.m3u8''" by (simp add: m js_dollar)
  with 1 show "endsWith (strip_link m) (js ''.m3u8'')" by (simp only: endsWith_append)
qed

lemma dollar_link_hd: "dollar_link m \<Longrightarrow> m = 0x24 # drop 1 m"
  unfolding dollar_link_def by (auto simp: js_dollar)

lemma distinct_map_drop1:
  assumes "distinct ms" "\<forall>m\<in>set ms. dollar_link m"
  shows "distinct (map (drop 1) ms)"
proof -
  have "inj_on (drop 1) (set ms)"
  proof (rule inj_onI)
    fix x y assume "x \<in> set ms" "y \<in> set ms" "drop 1 x = drop 1 y"
    with assms(2) dollar_link_hd[of x] dollar_link_hd[of y] show "x = y" by metis
  qed
  with assms(1) show ?thesis by (simp add: distinct_map)
qed

lemma item_matches_dollar: "m \<in> set (item_matches item) \<Longrightarrow> dollar_link m"
  unfolding item_matches_def
  using pick_episodes_mem match_all_m3u8Regex by (auto split: if_splits)

lemma scrape_matches_dollar: "m \<in> set (scrape_matches apiSite html) \<Longrightarrow> dollar_link m"
  unfolding scrape_matches_def Let_def
  using match_all_ffzyPattern match_all_m3u8Regex by (auto split: if_splits)

lemma dedupe_links_http:
  assumes "\<forall>m\<in>set ms. dollar_link m"
  shows "\<forall>e\<in>set (dedupe_links ms). http_url e"
  using assms strip_link_dollar_link(2) by (auto simp: dedupe_links_def set_from_set)

lemma dedupe_links_no_paren:
  assumes "\<forall>m\<in>set ms. dollar_link m" "\<forall>m\<in>set ms. 0x28 \<notin> set m"
  shows "dedupe_links ms = map (drop 1) (from_set ms)"
    and "distinct (dedupe_links ms)"
    and "\<forall>e\<in>set (dedupe_links ms). endsWith e (js ''.m3u8'')"
proof -
  show 1: "dedupe_links ms = map (drop 1) (from_set ms)"
    unfolding dedupe_links_def
    using assms strip_link_no_paren(1) by (intro map_cong) (auto simp: set_from_set)
  show "distinct (dedupe_links ms)"
    unfolding 1 using assms(1) by (intro distinct_map_drop1) (auto simp: distinct_from_set set_from_set)
  show "\<forall>e\<in>set (dedupe_links ms). endsWith e (js ''.m3u8'')"
    using assms strip_link_no_paren(2) by (auto simp: dedupe_links_def set_from_set)
qed

lemma structured_episodes_http:
  assumes "e \<in> set (structured_episodes vd)"
  shows "http_url e"
proof (cases "truthy (vod_play_url vd)")
  case False
  with assms show ?thesis by (simp add: structured_episodes_def)
next
  case True
  show ?thesis
  proof (cases "split (or_empty (vod_play_url vd)) (js ''$$$'')")
    case Nil
    with True assms show ?thesis by (simp add: structured_episodes_def)
  next
    case (Cons mainSource rest)
    with True assms show ?thesis by (simp add: structured_episodes_def http_url_def)
  qed
qed

lemma plain_link_props:
  assumes "plain_link m"
  shows "strip_dollar m = m" and "http_url m" and "endsWith m (js ''.m3u8'')"
proof -
  from assms obtain sch rest where m: "m = sch @ rest @ js ''.m3u8''"
    and sch: "sch = js ''http://'' \<or> sch = js ''https://''"
    unfolding plain_link_def by blast
  from sch obtain t where "sch = 0x68 # t" by (auto simp: js_def)
  with m show "strip_dollar m = m" by (simp add: strip_dollar_def)
  show "http_url m" unfolding m using http_url_append[OF sch] .
  have "m = (sch @ rest) @ js ''.m3u8''" by (simp add: m)
  then show "endsWith m (js ''.m3u8'')" by (simp only: endsWith_append)
qed

lemma match_all_sublist:
  assumes "m \<in> set (match_all rx s)"
  shows "\<exists>pre post. s = pre @ m @ post"
proof -
  from match_all_mem[OF assms] obtain pre t g where s: "s = pre @ t" and e: "exec_at rx t = Some (m, g)"
    by blast
  obtain a gr b where rx: "rx = (a, gr, b)" by (cases rx)
  from exec_at_SomeD[OF e[unfolded rx]] obtain r3 where "t = m @ r3" by blast
  with s have "s = pre @ m @ r3" by simp
  then show ?thesis by blast
qed

lemma detail_episodes_fallback:
  assumes "structured_episodes vd = []" "truthy (vod_content vd)"
  shows "detail_episodes vd = match_all M3U8_PATTERN (or_empty (vod_content vd))"
proof -
  have "map strip_dollar (match_all M3U8_PATTERN (or_empty (vod_content vd)))
          = match_all M3U8_PATTERN (or_empty (vod_content vd))"
    using match_all_M3U8_PATTERN plain_link_props(1) by (intro map_idI) blast
  with assms show ?thesis by (simp add: detail_episodes_def Let_def)
qed

lemma detail_episodes_http: "e \<in> set (detail_episodes vd) \<Longrightarrow> http_url e"
proof -
  assume e: "e \<in> set (detail_episodes vd)"
  show ?thesis
  proof (cases "length (structured_episodes vd) = 0 \<and> truthy (vod_content vd)")
    case True
    then have "detail_episodes vd = match_all M3U8_PATTERN (or_empty (vod_content vd))"
      using detail_episodes_fallback by simp
    with e show ?thesis using match_all_M3U8_PATTERN plain_link_props(2) by metis
  next
    case False
    then have "detail_episodes vd = structured_episodes vd"
      by (auto simp: detail_episodes_def Let_def)
    with e show ?thesis using structured_episodes_http by simp
  qed
qed

lemma fold_update_length:
  "length (fold (\<lambda>k sl. sl[k := f k]) ks init) = length init"
  by (induction ks arbitrary: init) auto

lemma fold_update_nth:
  "i < length init \<Longrightarrow>
     fold (\<lambda>k sl. sl[k := f k]) ks init ! i = (if i \<in> set ks then f i else init ! i)"
proof (induction ks arbitrary: init)
  case Nil
  then show ?case by simp
next
  case (Cons k ks)
  have "fold (\<lambda>k sl. sl[k := f k]) (k # ks) init ! i
          = fold (\<lambda>k sl. sl[k := f k]) ks (init[k := f k]) ! i" by simp
  also have "\<dots> = (if i \<in> set ks then f i else init[k := f k] ! i)"
    using Cons.prems by (intro Cons.IH) simp
  also have "\<dots> = (if i \<in> set (k # ks) then f i else init ! i)"
    using Cons.prems by (auto simp: nth_list_update)
  finally show ?case .
qed

lemma those_map_Some: "those (map Some xs) = Some xs"
  by (induction xs) auto

lemma promise_all_fulfils: "promise_all ps = Some (map snd ps)"
proof -
  let ?n = "length ps"
  let ?completion = "sort_key (\<lambda>k. fst (ps ! k)) [0..<?n]"
  let ?slots = "fold (\<lambda>k sl. sl[k := Some (snd (ps ! k))]) ?completion (replicate ?n None)"
  have set_c: "set ?completion = {0..<?n}" by simp
  have len: "length ?slots = ?n" by (simp add: fold_update_length)
  have "?slots = map Some (map snd ps)"
  proof (rule nth_equalityI)
    show "length ?slots = length (map Some (map snd ps))" using len by simp
  next
    fix i assume "i < length ?slots"
    then have i: "i < ?n" using len by simp
    then have "?slots ! i = (if i \<in> set ?completion then Some (snd (ps ! i)) else replicate ?n None ! i)"
      by (intro fold_update_nth) simp
    also have "\<dots> = Some (snd (ps ! i))" using i set_c by simp
    finally show "?slots ! i = map Some (map snd ps) ! i" using i by simp
  qed
  then have "those ?slots = Some (map snd ps)" by (simp only: those_map_Some)
  then show ?thesis by (simp add: promise_all_def Let_def)
qed

text \<open>The pages of one search, and the closed form of the try block.\<close>

lemma fetchSearchResults_mem:
  "r \<in> set (fetchSearchResults env net n u apiSite) \<Longrightarrow>
     \<exists>item. r = transformApiSearchItem env item apiSite"
  unfolding fetchSearchResults_def page_results_def page_try_def
  by (auto split: sum.splits fetched.splits if_splits option.splits json.splits jlist.splits)

lemma fetchSearchResults_cong:
  "fetch net' n (search_request env u) = fetch net n (search_request env u) \<Longrightarrow>
     fetchSearchResults env net' n u apiSite = fetchSearchResults env net n u apiSite"
  by (simp add: fetchSearchResults_def)

lemma search_try_empty:
  "fetchSearchResults env net 0 u apiSite = [] \<Longrightarrow>
     search_try env net apiSite q u = (Some (Inr []), [search_request env u])"
  by (simp add: search_try_def Let_def)

lemma search_try_rejected:
  "fetchSearchResults env net 0 u apiSite \<noteq> [] \<Longrightarrow>
   fetch net 1 (count_request env u) = Rejected e \<Longrightarrow>
     search_try env net apiSite q u
       = (Some (Inl (FetchError e)), [search_request env u, count_request env u])"
  by (simp add: search_try_def Let_def)

lemma search_try_not_json:
  "fetchSearchResults env net 0 u apiSite \<noteq> [] \<Longrightarrow>
   fetch net 1 (count_request env u) = Response r \<Longrightarrow> body_json r = None \<Longrightarrow>
     search_try env net apiSite q u
       = (Some (Inl SyntaxError), [search_request env u, count_request env u])"
  by (simp add: search_try_def Let_def)

lemma search_try_null:
  "fetchSearchResults env net 0 u apiSite \<noteq> [] \<Longrightarrow>
   fetch net 1 (count_request env u) = Response r \<Longrightarrow> body_json r = Some JNull \<Longrightarrow>
     search_try env net apiSite q u
       = (Some (Inl TypeError), [search_request env u, count_request env u])"
  by (simp add: search_try_def Let_def)

lemma search_try_pages:
  assumes "fetchSearchResults env net 0 u apiSite \<noteq> []"
    and "fetch net 1 (count_request env u) = Response r"
    and "body_json r = Some (JObject l pc)"
  shows "search_try env net apiSite q u
       = (Some (Inr (fetchSearchResults env net 0 u apiSite @
                     concat (map (\<lambda>p. fetchSearchResults env net (nat p) (pageUrl env apiSite q p) apiSite)
                                 [2..pages_to_fetch env pc]))),
          search_request env u # count_request env u #
            map (\<lambda>p. search_request env (pageUrl env apiSite q p)) [2..pages_to_fetch env pc])"
proof (cases "pages_to_fetch env pc \<le> 1")
  case True
  then have "[2..pages_to_fetch env pc] = []" by simp
  with True assms show ?thesis
    by (simp add: search_try_def Let_def pages_to_fetch_def)
next
  case False
  with assms show ?thesis
    by (simp add: search_try_def Let_def pages_to_fetch_def promise_all_fulfils comp_def)
qed

lemma search_try_settles: "\<exists>res log. search_try env net apiSite q u = (Some res, log)"
proof (cases "fetchSearchResults env net 0 u apiSite = []")
  case True
  then show ?thesis using search_try_empty by blast
next
  case False
  show ?thesis
  proof (cases "fetch net 1 (count_request env u)")
    case (Rejected e)
    with False show ?thesis using search_try_rejected by blast
  next
    case (Response r)
    show ?thesis
    proof (cases "body_json r")
      case None
      with False Response show ?thesis using search_try_not_json by blast
    next
      case (Some d)
      show ?thesis
      proof (cases d)
        case JNull
        with False Response Some show ?thesis using search_try_null by blast
      next
        case (JObject l pc)
        with False Response Some show ?thesis using search_try_pages by blast
      qed
    qed
  qed
qed

lemma search_try_cong:
  assumes "\<forall>n rq. fetch net' n rq = fetch net n rq"
  shows "search_try env net' apiSite q u = search_try env net apiSite q u"
proof -
  have F: "fetchSearchResults env net' n v apiSite = fetchSearchResults env net n v apiSite" for n v
    using assms by (simp add: fetchSearchResults_def)
  have C: "fetch net' 1 (count_request env u) = fetch net 1 (count_request env u)"
    using assms by simp
  show ?thesis
  proof (cases "fetchSearchResults env net 0 u apiSite = []")
    case True
    then show ?thesis using F by (simp add: search_try_empty)
  next
    case False
    then have False': "fetchSearchResults env net' 0 u apiSite \<noteq> []" using F by simp
    show ?thesis
    proof (cases "fetch net 1 (count_request env u)")
      case (Rejected e)
      with False False' C show ?thesis by (simp add: search_try_rejected)
    next
      case (Response r)
      show ?thesis
      proof (cases "body_json r")
        case None
        with False False' C Response show ?thesis by (simp add: search_try_not_json)
      next
        case (Some d)
        show ?thesis
        proof (cases d)
          case JNull
          with False False' C Response Some show ?thesis by (simp add: search_try_null)
        next
          case (JObject l pc)
          with False False' C Response Some show ?thesis by (simp add: search_try_pages F)
        qed
      qed
    qed
  qed
qed

lemma searchFromApi_encoded:
  assumes "encodeURIComponent query = Inr q"
  shows "searchFromApi env net apiSite query =
           (case search_try env net apiSite q (api apiSite @ search_path env @ q) of
              (Some (Inl e), log) \<Rightarrow> (Some (Inr []), log)
            | (r, log) \<Rightarrow> (r, log))"
  using assms by (simp add: searchFromApi_def)

lemma searchFromApi_fulfils:
  assumes "encodeURIComponent query = Inr q"
  shows "\<exists>rs. fst (searchFromApi env net apiSite query) = Some (Inr rs)"
proof -
  obtain res log where st: "search_try env net apiSite q (api apiSite @ search_path env @ q) = (Some res, log)"
    using search_try_settles by blast
  show ?thesis
    unfolding searchFromApi_encoded[OF assms] st by (cases res) auto
qed

text \<open>The example search, evaluated.\<close>

lemma ex_encode: "encodeURIComponent (js ''a b'') = Inr (js ''a%20b'')"
  by (simp add: js_def unescaped_def is_trail_def is_lead_def percent_def utf8_def hex_char_def)

lemma ex_initialUrl:
  "api ex_site @ search_path ex_env @ js ''a%20b''
     = js ''https://v.example/api.php?ac=videolist&wd=a%20b''"
  by (simp add: ex_site_def ex_env_def js_def)

lemma ex_pageUrl2:
  "pageUrl ex_env ex_site (js ''a%20b'') 2
     = js ''https://v.example/api.php?ac=videolist&wd=a%20b&pg=2''"
  by (simp add: pageUrl_def ex_site_def ex_env_def js_def startsWith_def toString.simps
      digit_char_def)

lemma ex_pageUrl3:
  "pageUrl ex_env ex_site (js ''a%20b'') 3
     = js ''https://v.example/api.php?ac=videolist&wd=a%20b&pg=3''"
  by (simp add: pageUrl_def ex_site_def ex_env_def js_def startsWith_def toString.simps
      digit_char_def)

lemma ex_fetch_page:
  "fetch ex_net n (search_request ex_env v) = Response (ex_response [ex_page_item n] (Some 5))"
  by (simp add: fetch_def ex_net_def search_request_def)

lemma ex_page:
  "fetchSearchResults ex_env ex_net n v ex_site
     = [transformApiSearchItem ex_env (ex_page_item n) ex_site]"
  by (simp add: fetchSearchResults_def ex_fetch_page page_results_def page_try_def
      ex_response_def ok_def)

lemma ex_fetch_count:
  "fetch ex_net 1 (count_request ex_env v) = Response (ex_response [ex_page_item 1] (Some 5))"
  by (simp add: fetch_def ex_net_def count_request_def)

lemma ex_pages_to_fetch: "pages_to_fetch ex_env (Some 5) = 3"
  by (simp add: pages_to_fetch_def ex_env_def)

lemma ex_search:
  "searchFromApi ex_env ex_net ex_site (js ''a b'') =
     (Some (Inr [transformApiSearchItem ex_env (ex_page_item 0) ex_site,
                 transformApiSearchItem ex_env (ex_page_item 2) ex_site,
                 transformApiSearchItem ex_env (ex_page_item 3) ex_site]),
      [search_request ex_env (js ''https://v.example/api.php?ac=videolist&wd=a%20b''),
       count_request ex_env (js ''https://v.example/api.php?ac=videolist&wd=a%20b''),
       search_request ex_env (js ''https://v.example/api.php?ac=videolist&wd=a%20b&pg=2''),
       search_request ex_env (js ''https://v.example/api.php?ac=videolist&wd=a%20b&pg=3'')])"
proof -
  let ?u = "js ''https://v.example/api.php?ac=videolist&wd=a%20b''"
  have ne: "fetchSearchResults ex_env ex_net 0 ?u ex_site \<noteq> []" by (simp add: ex_page)
  have bj: "body_json (ex_response [ex_page_item 1] (Some 5))
              = Some (JObject (Arr [ex_page_item 1]) (Some 5))"
    by (simp add: ex_response_def)
  have "search_try ex_env ex_net ex_site (js ''a%20b'') ?u =
     (Some (Inr [transformApiSearchItem ex_env (ex_page_item 0) ex_site,
                 transformApiSearchItem ex_env (ex_page_item 2) ex_site,
                 transformApiSearchItem ex_env (ex_page_item 3) ex_site]),
      [search_request ex_env ?u, count_request ex_env ?u,
       search_request ex_env (js ''https://v.example/api.php?ac=videolist&wd=a%20b&pg=2''),
       search_request ex_env (js ''https://v.example/api.php?ac=videolist&wd=a%20b&pg=3'')])"
    unfolding search_try_pages[OF ne ex_fetch_count bj] ex_pages_to_fetch
    by (simp add: ex_page ex_pageUrl2 ex_pageUrl3)
  then show ?thesis
    by (simp add: searchFromApi_encoded[OF ex_encode] ex_initialUrl)
qed

lemma ex_count_fails_page1:
  "fetchSearchResults ex_env ex_net_count_fails 0 v ex_site
     = [transformApiSearchItem ex_env (ex_page_item 0) ex_site]"
  by (simp add: fetchSearchResults_def fetch_def ex_net_count_fails_def ex_net_def
      search_request_def page_results_def page_try_def ex_response_def ok_def)

lemma ex_count_fails_fetch:
  "fetch ex_net_count_fails 1 (count_request ex_env v) = Rejected NetworkFailure"
  by (simp add: fetch_def ex_net_count_fails_def count_request_def)

lemma ex_count_fails_search:
  "searchFromApi ex_env ex_net_count_fails ex_site (js ''a b'') =
     (Some (Inr []),
      [search_request ex_env (js ''https://v.example/api.php?ac=videolist&wd=a%20b''),
       count_request ex_env (js ''https://v.example/api.php?ac=videolist&wd=a%20b'')])"
proof -
  let ?u = "js ''https://v.example/api.php?ac=videolist&wd=a%20b''"
  have ne: "fetchSearchResults ex_env ex_net_count_fails 0 ?u ex_site \<noteq> []"
    by (simp add: ex_count_fails_page1)
  show ?thesis
    by (simp add: searchFromApi_encoded[OF ex_encode] ex_initialUrl
        search_try_rejected[OF ne ex_count_fails_fetch])
qed

text \<open>The results of the two public operations.\<close>

lemma searchFromApi_mem:
  assumes "searchFromApi env net apiSite query = (Some (Inr rs), log)" and "r \<in> set rs"
  shows "\<exists>item. r = transformApiSearchItem env item apiSite"
proof (cases "encodeURIComponent query")
  case (Inl e)
  with assms(1) show ?thesis by (simp add: searchFromApi_def)
next
  case (Inr q)
  let ?u = "api apiSite @ search_path env @ q"
  note S = searchFromApi_encoded[OF Inr, of env net apiSite]
  show ?thesis
  proof (cases "fetchSearchResults env net 0 ?u apiSite = []")
    case True
    with assms S show ?thesis by (simp add: search_try_empty)
  next
    case False
    show ?thesis
    proof (cases "fetch net 1 (count_request env ?u)")
      case (Rejected e)
      with False assms S show ?thesis by (simp add: search_try_rejected)
    next
      case (Response resp)
      show ?thesis
      proof (cases "body_json resp")
        case None
        with False Response assms S show ?thesis by (simp add: search_try_not_json)
      next
        case (Some d)
        show ?thesis
        proof (cases d)
          case JNull
          with False Response Some assms S show ?thesis by (simp add: search_try_null)
        next
          case (JObject l pc)
          with False Response Some assms(1) S
          have "rs = fetchSearchResults env net 0 ?u apiSite @
                     concat (map (\<lambda>p. fetchSearchResults env net (nat p) (pageUrl env apiSite q p) apiSite)
                                 [2..pages_to_fetch env pc])"
            by (simp add: search_try_pages)
          with assms(2) obtain n v where "r \<in> set (fetchSearchResults env net n v apiSite)"
            by auto
          then show ?thesis by (rule fetchSearchResults_mem)
        qed
      qed
    qed
  qed
qed

lemma getDetailFromApi_json:
  "\<not> truthy (detail apiSite) \<Longrightarrow>
     getDetailFromApi env net apiSite ident =
       (detail_of_fetched env apiSite ident
          (fetch net 0 (detail_request env (api apiSite @ detail_path env @ ident))),
        [detail_request env (api apiSite @ detail_path env @ ident)])"
  by (simp add: getDetailFromApi_def Let_def)

lemma detail_of_fetched_Inr:
  "detail_of_fetched env apiSite ident out = Inr r \<Longrightarrow>
     \<exists>vd. r = detail_result env apiSite ident vd"
  unfolding detail_of_fetched_def
  by (auto split: fetched.splits if_splits option.splits json.splits jlist.splits list.splits)

lemma scrape_of_fetched_Inr:
  "scrape_of_fetched env apiSite ident out = Inr r \<Longrightarrow>
     \<exists>html. r = scrape_result env apiSite ident html"
  unfolding scrape_of_fetched_def
  by (auto split: fetched.splits if_splits)

lemma getDetailFromApi_Inr:
  assumes "getDetailFromApi env net apiSite ident = (Inr r, log)"
  shows "(\<exists>vd. r = detail_result env apiSite ident vd) \<or>
         (\<exists>html. r = scrape_result env apiSite ident html)"
proof (cases "truthy (detail apiSite)")
  case True
  with assms have "\<exists>out. scrape_of_fetched env apiSite ident out = Inr r"
    by (auto simp: getDetailFromApi_def handleSpecialSourceDetail_def Let_def)
  then show ?thesis using scrape_of_fetched_Inr by blast
next
  case False
  with assms have "\<exists>out. detail_of_fetched env apiSite ident out = Inr r"
    by (auto simp: getDetailFromApi_json)
  then show ?thesis using detail_of_fetched_Inr by blast
qed

lemma msg_distinct: "msg_request_failed @ x \<noteq> msg_invalid_payload"
  by (simp add: msg_request_failed_def msg_invalid_payload_def)

lemma detail_request_failed_iff:
  "(\<exists>m. detail_of_fetched env apiSite ident out = Inl (Error (msg_request_failed @ m)))
     \<longleftrightarrow> (\<exists>r. out = Response r \<and> \<not> ok r)"
  unfolding detail_of_fetched_def
  using msg_distinct[symmetric]
  by (auto split: fetched.splits option.splits json.splits jlist.splits list.splits)

lemma detail_request_failed_msg:
  "out = Response r \<Longrightarrow> \<not> ok r \<Longrightarrow>
     detail_of_fetched env apiSite ident out
       = Inl (Error (msg_request_failed @ toString (status r)))"
  by (simp add: detail_of_fetched_def)

lemma detail_invalid_payload_iff:
  "detail_of_fetched env apiSite ident out = Inl (Error msg_invalid_payload)
     \<longleftrightarrow> (\<exists>r d. out = Response r \<and> ok r \<and> body_json r = Some d \<and> lacks_list d)"
  unfolding detail_of_fetched_def lacks_list_def
  using msg_distinct
  by (auto split: fetched.splits option.splits json.splits jlist.splits list.splits)

lemma detail_of_fetched_first:
  "ok r \<Longrightarrow> body_json r = Some (JObject (Arr (x # xs)) pc) \<Longrightarrow>
     detail_of_fetched env apiSite ident (Response r) = Inr (detail_result env apiSite ident x)"
  by (simp add: detail_of_fetched_def)

lemma scrape_episodes_http:
  "e \<in> set (episodes (scrape_result env apiSite ident html)) \<Longrightarrow> http_url e"
  using dedupe_links_http[of "scrape_matches apiSite html"] scrape_matches_dollar
  by (auto simp: scrape_result_def)

lemma transform_episodes_http:
  "e \<in> set (episodes (transformApiSearchItem env item apiSite)) \<Longrightarrow> http_url e"
  using dedupe_links_http[of "item_matches item"] item_matches_dollar
  by (auto simp: transformApiSearchItem_def)

lemma detail_result_episodes_http:
  "e \<in> set (episodes (detail_result env apiSite ident vd)) \<Longrightarrow> http_url e"
  using detail_episodes_http by (simp add: detail_result_def)

lemma detail_episodes_m3u8:
  assumes "structured_episodes vd = []" "e \<in> set (detail_episodes vd)"
  shows "endsWith e (js ''.m3u8'')"
proof (cases "truthy (vod_content vd)")
  case True
  from detail_episodes_fallback[OF assms(1) True] assms(2)
  show ?thesis using match_all_M3U8_PATTERN plain_link_props(3) by metis
next
  case False
  with assms show ?thesis by (simp add: detail_episodes_def Let_def)
qed

lemma detail_fields_agree:
  "poster (detail_result env apiSite ident item) = poster (transformApiSearchItem env item apiSite)"
  "class' (detail_result env apiSite ident item) = class' (transformApiSearchItem env item apiSite)"
  "year (detail_result env apiSite ident item) = year (transformApiSearchItem env item apiSite)"
  "type_name' (detail_result env apiSite ident item)
     = type_name' (transformApiSearchItem env item apiSite)"
  "douban_id (detail_result env apiSite ident item)
     = douban_id (transformApiSearchItem env item apiSite)"
  "vod_content item \<noteq> None \<Longrightarrow>
     desc (detail_result env apiSite ident item) = desc (transformApiSearchItem env item apiSite)"
  by (auto simp: detail_result_def transformApiSearchItem_def or_empty_def)

text \<open>The example items, evaluated.\<close>

lemmas regex_eval =
  match_all_def m3u8Regex_def M3U8_PATTERN_def m3u8_body_def exec_at_def js_def
  startsWith_def url_char_def is_space_def

lemma ex_item_truthy: "truthy (vod_play_url ex_item)"
  by (simp add: ex_item_def truthy_def js_def)

lemma ex_item_groups:
  "map (match_all m3u8Regex) (split (or_empty (vod_play_url ex_item)) (js ''$$$''))
     = [[js ''$https://a.example/1.m3u8''],
        [js ''$https://b.example/1.m3u8'', js ''$https://b.example/2.m3u8'',
         js ''$https://b.example/1.m3u8'']]"
  by (simp add: ex_item_def or_empty_def split_def regex_eval)

lemma ex_item_matches:
  "item_matches ex_item
     = [js ''$https://b.example/1.m3u8'', js ''$https://b.example/2.m3u8'',
        js ''$https://b.example/1.m3u8'']"
  using ex_item_groups
  by (simp add: item_matches_def ex_item_truthy pick_episodes_fold)

lemma ex_item_episodes:
  "episodes (transformApiSearchItem ex_env ex_item ex_site)
     = [js ''https://b.example/1.m3u8'', js ''https://b.example/2.m3u8'']"
  by (simp add: transformApiSearchItem_def ex_item_matches dedupe_links_def from_set_def
      strip_link_def indexOf_def js_def)

lemma ex_paren_matches:
  "item_matches ex_paren_item
     = [js ''$http://a.example/v(1).m3u8'', js ''$http://a.example/v(2).m3u8'']"
  by (simp add: item_matches_def ex_paren_item_def ex_item_def truthy_def or_empty_def
      split_def pick_episodes_def regex_eval)

lemma ex_paren_episodes:
  "episodes (transformApiSearchItem ex_env ex_paren_item ex_site)
     = [js ''http://a.example/v'', js ''http://a.example/v'']"
  by (simp add: transformApiSearchItem_def ex_paren_matches dedupe_links_def from_set_def
      strip_link_def indexOf_def js_def)

lemma ex_mp4_episodes:
  "episodes (detail_result ex_env ex_site (js ''42'') ex_mp4_item)
     = [js ''https://a.example/1.mp4'', js ''https://a.example/1.mp4'']"
  by (simp add: detail_result_def detail_episodes_def structured_episodes_def ex_mp4_item_def
      ex_item_def truthy_def or_empty_def split_def js_def startsWith_def)

lemma ex_detail_of:
  "getDetailFromApi ex_env (ex_net_of (item # others)) ex_site ident
     = (Inr (detail_result ex_env ex_site ident item),
        [detail_request ex_env (api ex_site @ detail_path ex_env @ ident)])"
  by (simp add: getDetailFromApi_def ex_site_def truthy_def fetch_def ex_net_of_def
      detail_request_def detail_of_fetched_def ex_response_def ok_def)

lemma ex_content_eval:
  "match_all M3U8_PATTERN (js ''see http://c.example/v.m3u8 or $https://d.example/w.m3u8'')
     = [js ''http://c.example/v.m3u8'', js ''https://d.example/w.m3u8'']"
  by (simp add: regex_eval)

lemma ex_content_structured: "structured_episodes ex_content_item = []"
  by (simp add: structured_episodes_def ex_content_item_def truthy_def)

lemma ex_content_truthy: "truthy (vod_content ex_content_item)"
  by (simp add: ex_content_item_def truthy_def js_def)

lemma ex_content_text:
  "or_empty (vod_content ex_content_item)
     = js ''see http://c.example/v.m3u8 or $https://d.example/w.m3u8''"
  by (simp add: ex_content_item_def or_empty_def)

lemma ex_title_search:
  "title (transformApiSearchItem ex_env ex_item ex_site) = js ''Foo Bar''"
  by (simp add: transformApiSearchItem_def ex_item_def trim_def replace_all_def spaces_regex_def
      exec_at_def is_space_def js_def)

lemma ex_title_detail:
  "title (detail_result ex_env ex_site ident ex_item) = js '' Foo  Bar ''"
  by (simp add: detail_result_def ex_item_def)

section \<open>The episodes of a result\<close>

text \<open>
  C1 (as amended). Every episode of every result of \<open>searchFromApi\<close> and of
  \<open>getDetailFromApi\<close> (JSON branch in both of its modes, HTML branch) starts with
  \<open>http://\<close> or \<open>https://\<close>. In search-item normalisation and in the HTML branch, when
  no kept match contains an opening parenthesis, the episodes are pairwise distinct and
  each ends in \<open>.m3u8\<close>. In the JSON branch the episodes of the fallback mode end in
  \<open>.m3u8\<close>; the structured mode checks the prefix only, and neither mode removes
  duplicates.
\<close>

theorem episodes_invariant:
  "(\<forall>rs log r. searchFromApi env net apiSite query = (Some (Inr rs), log) \<and> r \<in> set rs \<longrightarrow>
       (\<forall>e\<in>set (episodes r). http_url e)) \<and>
   (\<forall>r log. getDetailFromApi env net apiSite ident = (Inr r, log) \<longrightarrow>
       (\<forall>e\<in>set (episodes r). http_url e)) \<and>
   ((\<forall>m\<in>set (item_matches item). 0x28 \<notin> set m) \<longrightarrow>
       distinct (episodes (transformApiSearchItem env item apiSite)) \<and>
       (\<forall>e\<in>set (episodes (transformApiSearchItem env item apiSite)). endsWith e (js ''.m3u8''))) \<and>
   ((\<forall>m\<in>set (scrape_matches apiSite html). 0x28 \<notin> set m) \<longrightarrow>
       distinct (episodes (scrape_result env apiSite ident html)) \<and>
       (\<forall>e\<in>set (episodes (scrape_result env apiSite ident html)). endsWith e (js ''.m3u8''))) \<and>
   (structured_episodes item = [] \<longrightarrow>
       (\<forall>e\<in>set (episodes (detail_result env apiSite ident item)). endsWith e (js ''.m3u8'')))"
proof (intro conjI allI impI ballI)
  fix rs log r e
  assume a: "searchFromApi env net apiSite query = (Some (Inr rs), log) \<and> r \<in> set rs"
    and e: "e \<in> set (episodes r)"
  from a obtain it where "r = transformApiSearchItem env it apiSite"
    using searchFromApi_mem by blast
  with e show "http_url e" using transform_episodes_http by blast
next
  fix r log e
  assume a: "getDetailFromApi env net apiSite ident = (Inr r, log)" and e: "e \<in> set (episodes r)"
  from getDetailFromApi_Inr[OF a] e show "http_url e"
    using detail_result_episodes_http scrape_episodes_http by blast
next
  assume a: "\<forall>m\<in>set (item_matches item). 0x28 \<notin> set m"
  have d: "\<forall>m\<in>set (item_matches item). dollar_link m" using item_matches_dollar by blast
  show "distinct (episodes (transformApiSearchItem env item apiSite))"
    using dedupe_links_no_paren(2)[OF d a] by (simp add: transformApiSearchItem_def)
  fix e assume "e \<in> set (episodes (transformApiSearchItem env item apiSite))"
  then show "endsWith e (js ''.m3u8'')"
    using dedupe_links_no_paren(3)[OF d a] by (simp add: transformApiSearchItem_def)
next
  assume a: "\<forall>m\<in>set (scrape_matches apiSite html). 0x28 \<notin> set m"
  have d: "\<forall>m\<in>set (scrape_matches apiSite html). dollar_link m"
    using scrape_matches_dollar by blast
  show "distinct (episodes (scrape_result env apiSite ident html))"
    using dedupe_links_no_paren(2)[OF d a] by (simp add: scrape_result_def)
  fix e assume "e \<in> set (episodes (scrape_result env apiSite ident html))"
  then show "endsWith e (js ''.m3u8'')"
    using dedupe_links_no_paren(3)[OF d a] by (simp add: scrape_result_def)
next
  fix e
  assume "structured_episodes item = []"
    and "e \<in> set (episodes (detail_result env apiSite ident item))"
  then show "endsWith e (js ''.m3u8'')"
    using detail_episodes_m3u8 by (simp add: detail_result_def)
qed

theorem episodes_invariant_witness:
  "0x28 \<notin> set (concat (item_matches ex_item)) \<and>
   distinct (episodes (transformApiSearchItem ex_env ex_item ex_site)) \<and>
   endsWith (js ''https://b.example/1.m3u8'') (js ''.m3u8'') \<and>
   http_url (js ''https://a.example/1.mp4'')"
proof -
  note inv = episodes_invariant[of ex_env "ex_net_of [ex_mp4_item]" ex_site "js ''a b''"
      "js ''42''" ex_item "[]"]
  have np: "0x28 \<notin> set (concat (item_matches ex_item))"
    by (simp add: ex_item_matches js_def)
  then have h: "\<forall>m\<in>set (item_matches ex_item). 0x28 \<notin> set m" by auto
  from inv h have d: "distinct (episodes (transformApiSearchItem ex_env ex_item ex_site))"
    and m: "\<forall>e\<in>set (episodes (transformApiSearchItem ex_env ex_item ex_site)).
              endsWith e (js ''.m3u8'')"
    by blast+
  from m have m1: "endsWith (js ''https://b.example/1.m3u8'') (js ''.m3u8'')"
    by (simp add: ex_item_episodes)
  from inv have "\<forall>r log. getDetailFromApi ex_env (ex_net_of [ex_mp4_item]) ex_site (js ''42'')
                    = (Inr r, log) \<longrightarrow> (\<forall>e\<in>set (episodes r). http_url e)"
    by blast
  then have "\<forall>e\<in>set (episodes (detail_result ex_env ex_site (js ''42'') ex_mp4_item)). http_url e"
    by (simp add: ex_detail_of)
  then have u: "http_url (js ''https://a.example/1.mp4'')"
    by (simp add: ex_mp4_episodes)
  from np d m1 u show ?thesis by blast
qed

text \<open>
  The claim as stated fails: the structured mode of the JSON branch returns a link twice,
  and the link is not a stream manifest.
\<close>

theorem episodes_m3u8_counterexample:
  "fst (getDetailFromApi ex_env (ex_net_of [ex_mp4_item]) ex_site (js ''42''))
     = Inr (detail_result ex_env ex_site (js ''42'') ex_mp4_item) \<and>
   episodes (detail_result ex_env ex_site (js ''42'') ex_mp4_item)
     = [js ''https://a.example/1.mp4'', js ''https://a.example/1.mp4'']"
  by (simp add: ex_detail_of ex_mp4_episodes)

section \<open>Search never fails outward\<close>

text \<open>
  C2. The claim holds for every query that \<open>encodeURIComponent\<close> accepts
  (\<open>searchFromApi_fulfils\<close>), but line 96 encodes the query before the \<open>try\<close> block is
  entered: for a query with an unpaired surrogate the promise rejects with \<open>URIError\<close>,
  whatever the network does, and no request is issued.
\<close>

theorem search_rejects_unpaired_surrogate:
  "searchFromApi env net apiSite [0xD800] = (Some (Inl URIError), [])"
  by (simp add: searchFromApi_def unescaped_def is_trail_def is_lead_def)

section \<open>Errors of the JSON detail branch\<close>

text \<open>
  C3. For a source without an HTML-detail base, the JSON branch of \<open>getDetailFromApi\<close>
  fails with the request-failed message exactly when the fetch answered with a status
  outside 200-299, and the message then ends with the status code; it fails with the
  invalid-payload message exactly when the status is in 200-299 and the parsed body has
  no non-empty \<open>list\<close> array; a failure returns no result.
\<close>

theorem detail_json_errors:
  assumes "\<not> truthy (detail apiSite)"
    and "out = fetch net 0 (detail_request env (api apiSite @ detail_path env @ ident))"
    and "res = fst (getDetailFromApi env net apiSite ident)"
  shows "((\<exists>m. res = Inl (Error (msg_request_failed @ m))) \<longleftrightarrow>
            (\<exists>r. out = Response r \<and> \<not> ok r)) \<and>
         (\<forall>r. out = Response r \<and> \<not> ok r \<longrightarrow>
            res = Inl (Error (msg_request_failed @ toString (status r)))) \<and>
         (res = Inl (Error msg_invalid_payload) \<longleftrightarrow>
            (\<exists>r d. out = Response r \<and> ok r \<and> body_json r = Some d \<and> lacks_list d)) \<and>
         ((\<exists>e. res = Inl e) \<longrightarrow> (\<forall>sr. res \<noteq> Inr sr))"
proof -
  have res: "res = detail_of_fetched env apiSite ident out"
    using assms by (simp add: getDetailFromApi_json)
  show ?thesis
    unfolding res
    using detail_request_failed_iff[of env apiSite ident out]
      detail_invalid_payload_iff[of env apiSite ident out]
      detail_request_failed_msg[of out _ env apiSite ident]
    by auto
qed

theorem detail_json_errors_witness:
  "\<not> truthy (detail ex_site) \<and>
   fst (getDetailFromApi ex_env (ex_net_status 404) ex_site (js ''42''))
     = Inl (Error (msg_request_failed @ js ''404'')) \<and>
   fst (getDetailFromApi ex_env (ex_net_of []) ex_site (js ''42''))
     = Inl (Error msg_invalid_payload)"
proof -
  let ?req = "detail_request ex_env (api ex_site @ detail_path ex_env @ js ''42'')"
  let ?r404 = "\<lparr> status = 404, body_text = [], body_json = None \<rparr>"
  have t: "\<not> truthy (detail ex_site)" by (simp add: ex_site_def truthy_def)
  have f1: "fetch (ex_net_status 404) 0 ?req = Response ?r404"
    by (simp add: fetch_def ex_net_status_def detail_request_def)
  have n1: "\<not> ok ?r404" by (simp add: ok_def)
  have s: "toString (status ?r404) = js ''404''"
    by (simp add: toString.simps digit_char_def js_def)
  from detail_json_errors[OF t f1[symmetric] refl]
  have "\<forall>r. Response ?r404 = Response r \<and> \<not> ok r \<longrightarrow>
          fst (getDetailFromApi ex_env (ex_net_status 404) ex_site (js ''42''))
            = Inl (Error (msg_request_failed @ toString (status r)))"
    by blast
  with n1 have 1: "fst (getDetailFromApi ex_env (ex_net_status 404) ex_site (js ''42''))
            = Inl (Error (msg_request_failed @ toString (status ?r404)))"
    by blast
  have f2: "fetch (ex_net_of []) 0 ?req = Response (ex_response [] None)"
    by (simp add: fetch_def ex_net_of_def detail_request_def)
  have p: "ok (ex_response [] None) \<and>
           body_json (ex_response [] None) = Some (JObject (Arr []) None) \<and>
           lacks_list (JObject (Arr []) None)"
    by (simp add: ok_def ex_response_def lacks_list_def)
  from detail_json_errors[OF t f2[symmetric] refl]
  have "fst (getDetailFromApi ex_env (ex_net_of []) ex_site (js ''42''))
          = Inl (Error msg_invalid_payload) \<longleftrightarrow>
        (\<exists>r d. Response (ex_response [] None) = Response r \<and> ok r \<and>
               body_json r = Some d \<and> lacks_list d)"
    by blast
  with p have 2: "fst (getDetailFromApi ex_env (ex_net_of []) ex_site (js ''42''))
          = Inl (Error msg_invalid_payload)"
    by blast
  from t 1 2 show ?thesis by (simp only: s simp_thms)
qed

section \<open>Pagination\<close>

text \<open>
  C4 (as amended). Let the query be one that \<open>encodeURIComponent\<close> accepts. If page 1
  yields no result, \<open>searchFromApi\<close> returns the empty sequence after that one request.
  If page 1 yields results and the page-count request (a second request for page 1)
  answers with a parsed body other than \<open>null\<close>, the requests issued are page 1, the
  page-count request and pages 2 to \<open>min(pagecount || 1, MAX_SEARCH_PAGES)\<close> in ascending
  order, and the result is page 1's results followed by those of the further pages in
  ascending page order. If page 1 yields results and the page-count request fails or
  answers with no such body, the result is the empty sequence. The result depends on
  the network only through the outcome of each fetch, not through the times at which
  the fetches settle.
\<close>

theorem search_pagination:
  assumes "encodeURIComponent query = Inr q"
    and "u = api apiSite @ search_path env @ q"
  shows "(fetchSearchResults env net 0 u apiSite = [] \<longrightarrow>
            searchFromApi env net apiSite query = (Some (Inr []), [search_request env u])) \<and>
         (\<forall>r l pc. fetchSearchResults env net 0 u apiSite \<noteq> [] \<and>
              fetch net 1 (count_request env u) = Response r \<and>
              body_json r = Some (JObject l pc) \<longrightarrow>
            searchFromApi env net apiSite query =
              (Some (Inr (fetchSearchResults env net 0 u apiSite @
                          concat (map (\<lambda>p. fetchSearchResults env net (nat p)
                                               (pageUrl env apiSite q p) apiSite)
                                      [2..pages_to_fetch env pc]))),
               search_request env u # count_request env u #
                 map (\<lambda>p. search_request env (pageUrl env apiSite q p))
                     [2..pages_to_fetch env pc])) \<and>
         (fetchSearchResults env net 0 u apiSite \<noteq> [] \<and>
          (\<forall>r l pc. \<not> (fetch net 1 (count_request env u) = Response r \<and>
                          body_json r = Some (JObject l pc))) \<longrightarrow>
            searchFromApi env net apiSite query =
              (Some (Inr []), [search_request env u, count_request env u])) \<and>
         (\<forall>net'. (\<forall>n rq. fetch net' n rq = fetch net n rq) \<longrightarrow>
            searchFromApi env net' apiSite query = searchFromApi env net apiSite query)"
proof (intro conjI allI impI)
  have S: "searchFromApi env net apiSite query =
           (case search_try env net apiSite q u of
              (Some (Inl e), log) \<Rightarrow> (Some (Inr []), log)
            | (r, log) \<Rightarrow> (r, log))"
    using searchFromApi_encoded[OF assms(1)] assms(2) by simp
  {
    assume "fetchSearchResults env net 0 u apiSite = []"
    then show "searchFromApi env net apiSite query = (Some (Inr []), [search_request env u])"
      by (simp add: S search_try_empty)
  next
    fix r l pc
    assume "fetchSearchResults env net 0 u apiSite \<noteq> [] \<and>
              fetch net 1 (count_request env u) = Response r \<and>
              body_json r = Some (JObject l pc)"
    then show "searchFromApi env net apiSite query =
              (Some (Inr (fetchSearchResults env net 0 u apiSite @
                          concat (map (\<lambda>p. fetchSearchResults env net (nat p)
                                               (pageUrl env apiSite q p) apiSite)
                                      [2..pages_to_fetch env pc]))),
               search_request env u # count_request env u #
                 map (\<lambda>p. search_request env (pageUrl env apiSite q p))
                     [2..pages_to_fetch env pc])"
      by (simp add: S search_try_pages)
  next
    assume a: "fetchSearchResults env net 0 u apiSite \<noteq> [] \<and>
          (\<forall>r l pc. \<not> (fetch net 1 (count_request env u) = Response r \<and>
                          body_json r = Some (JObject l pc)))"
    then have ne: "fetchSearchResults env net 0 u apiSite \<noteq> []" by blast
    show "searchFromApi env net apiSite query =
              (Some (Inr []), [search_request env u, count_request env u])"
    proof (cases "fetch net 1 (count_request env u)")
      case (Rejected e)
      with ne show ?thesis by (simp add: S search_try_rejected)
    next
      case (Response r)
      show ?thesis
      proof (cases "body_json r")
        case None
        with ne Response show ?thesis by (simp add: S search_try_not_json)
      next
        case (Some d)
        with a Response have "d = JNull" by (cases d) auto
        with ne Response Some show ?thesis by (simp add: S search_try_null)
      qed
    qed
  next
    fix net' assume h: "\<forall>n rq. fetch net' n rq = fetch net n rq"
    show "searchFromApi env net' apiSite query = searchFromApi env net apiSite query"
      by (simp add: searchFromApi_encoded[OF assms(1)] search_try_cong[OF h])
  }
qed

theorem search_pagination_witness:
  "encodeURIComponent (js ''a b'') = Inr (js ''a%20b'') \<and>
   settle_time ex_net 3
       (search_request ex_env (js ''https://v.example/api.php?ac=videolist&wd=a%20b&pg=3''))
     < settle_time ex_net 2
       (search_request ex_env (js ''https://v.example/api.php?ac=videolist&wd=a%20b&pg=2'')) \<and>
   searchFromApi ex_env ex_net ex_site (js ''a b'') =
     (Some (Inr [transformApiSearchItem ex_env (ex_page_item 0) ex_site,
                 transformApiSearchItem ex_env (ex_page_item 2) ex_site,
                 transformApiSearchItem ex_env (ex_page_item 3) ex_site]),
      [search_request ex_env (js ''https://v.example/api.php?ac=videolist&wd=a%20b''),
       count_request ex_env (js ''https://v.example/api.php?ac=videolist&wd=a%20b''),
       search_request ex_env (js ''https://v.example/api.php?ac=videolist&wd=a%20b&pg=2''),
       search_request ex_env (js ''https://v.example/api.php?ac=videolist&wd=a%20b&pg=3'')])"
proof -
  let ?u = "js ''https://v.example/api.php?ac=videolist&wd=a%20b''"
  have st: "settle_time ex_net 3
       (search_request ex_env (js ''https://v.example/api.php?ac=videolist&wd=a%20b&pg=3''))
     < settle_time ex_net 2
       (search_request ex_env (js ''https://v.example/api.php?ac=videolist&wd=a%20b&pg=2''))"
    by (simp add: settle_time_def ex_net_def search_request_def)
  have ne: "fetchSearchResults ex_env ex_net 0 ?u ex_site \<noteq> []" by (simp add: ex_page)
  have bj: "body_json (ex_response [ex_page_item 1] (Some 5))
              = Some (JObject (Arr [ex_page_item 1]) (Some 5))"
    by (simp add: ex_response_def)
  from search_pagination[OF ex_encode ex_initialUrl[symmetric], of ex_net]
  have "\<forall>r l pc. fetchSearchResults ex_env ex_net 0 ?u ex_site \<noteq> [] \<and>
              fetch ex_net 1 (count_request ex_env ?u) = Response r \<and>
              body_json r = Some (JObject l pc) \<longrightarrow>
            searchFromApi ex_env ex_net ex_site (js ''a b'') =
              (Some (Inr (fetchSearchResults ex_env ex_net 0 ?u ex_site @
                          concat (map (\<lambda>p. fetchSearchResults ex_env ex_net (nat p)
                                               (pageUrl ex_env ex_site (js ''a%20b'') p) ex_site)
                                      [2..pages_to_fetch ex_env pc]))),
               search_request ex_env ?u # count_request ex_env ?u #
                 map (\<lambda>p. search_request ex_env (pageUrl ex_env ex_site (js ''a%20b'') p))
                     [2..pages_to_fetch ex_env pc])"
    by blast
  with ne ex_fetch_count[of ?u] bj
  have "searchFromApi ex_env ex_net ex_site (js ''a b'') =
              (Some (Inr (fetchSearchResults ex_env ex_net 0 ?u ex_site @
                          concat (map (\<lambda>p. fetchSearchResults ex_env ex_net (nat p)
                                               (pageUrl ex_env ex_site (js ''a%20b'') p) ex_site)
                                      [2..pages_to_fetch ex_env (Some 5)]))),
               search_request ex_env ?u # count_request ex_env ?u #
                 map (\<lambda>p. search_request ex_env (pageUrl ex_env ex_site (js ''a%20b'') p))
                     [2..pages_to_fetch ex_env (Some 5)])"
    by blast
  then have "searchFromApi ex_env ex_net ex_site (js ''a b'') =
     (Some (Inr [transformApiSearchItem ex_env (ex_page_item 0) ex_site,
                 transformApiSearchItem ex_env (ex_page_item 2) ex_site,
                 transformApiSearchItem ex_env (ex_page_item 3) ex_site]),
      [search_request ex_env ?u, count_request ex_env ?u,
       search_request ex_env (js ''https://v.example/api.php?ac=videolist&wd=a%20b&pg=2''),
       search_request ex_env (js ''https://v.example/api.php?ac=videolist&wd=a%20b&pg=3'')])"
    by (simp add: ex_pages_to_fetch ex_page ex_pageUrl2 ex_pageUrl3)
  with ex_encode st show ?thesis by blast
qed

text \<open>
  The claim as stated fails: page 1 yields a result, the page-count request fails, and
  the search returns the empty sequence.
\<close>

theorem search_refetch_failure_counterexample:
  "fetchSearchResults ex_env ex_net_count_fails 0
       (js ''https://v.example/api.php?ac=videolist&wd=a%20b'') ex_site
     = [transformApiSearchItem ex_env (ex_page_item 0) ex_site] \<and>
   fst (searchFromApi ex_env ex_net_count_fails ex_site (js ''a b'')) = Some (Inr [])"
  by (simp add: ex_count_fails_page1 ex_count_fails_search)

section \<open>Extraction of the links\<close>

text \<open>
  C5 (as amended). Delimited-list extraction splits the play-url field on \<open>$$$\<close>, keeps
  the matches of the group with the most dollar-prefixed \<open>http(s)\<close> \<open>.m3u8\<close> matches (the
  first such group on a tie), removes repeated matches by exact equality, keeping first
  occurrences in order, and only then strips the dollar sign from each match and cuts
  it at its first opening parenthesis. The HTML branch treats its matches the same way.
  Removing duplicates comes before the cut, so two matches that differ only behind the
  parenthesis both stay.
\<close>

theorem delimited_list_extraction:
  "(truthy (vod_play_url item) \<longrightarrow>
      richest_first (map (match_all m3u8Regex) (split (or_empty (vod_play_url item)) (js ''$$$'')))
                    (item_matches item)) \<and>
   (\<forall>m\<in>set (item_matches item). dollar_link m) \<and>
   (\<exists>uniq. keeps_first (item_matches item) uniq \<and>
           episodes (transformApiSearchItem env item apiSite) = map strip_link uniq) \<and>
   (\<exists>uniq. keeps_first (scrape_matches apiSite html) uniq \<and>
           episodes (scrape_result env apiSite ident html) = map strip_link uniq) \<and>
   (\<forall>m. dollar_link m \<longrightarrow>
        strip_link m = (if 0x28 \<in> set (drop 1 m)
                        then takeWhile (\<lambda>c. c \<noteq> 0x28) (drop 1 m) else drop 1 m))"
proof (intro conjI impI allI ballI)
  assume "truthy (vod_play_url item)"
  then show "richest_first
      (map (match_all m3u8Regex) (split (or_empty (vod_play_url item)) (js ''$$$'')))
      (item_matches item)"
    using pick_episodes_richest by (simp add: item_matches_def)
next
  fix m assume "m \<in> set (item_matches item)"
  then show "dollar_link m" by (rule item_matches_dollar)
next
  have "keeps_first (item_matches item) (from_set (item_matches item)) \<and>
        episodes (transformApiSearchItem env item apiSite)
          = map strip_link (from_set (item_matches item))"
    using from_set_keeps_first by (simp add: transformApiSearchItem_def dedupe_links_def)
  then show "\<exists>uniq. keeps_first (item_matches item) uniq \<and>
           episodes (transformApiSearchItem env item apiSite) = map strip_link uniq"
    by (rule exI)
next
  have "keeps_first (scrape_matches apiSite html) (from_set (scrape_matches apiSite html)) \<and>
        episodes (scrape_result env apiSite ident html)
          = map strip_link (from_set (scrape_matches apiSite html))"
    using from_set_keeps_first by (simp add: scrape_result_def dedupe_links_def)
  then show "\<exists>uniq. keeps_first (scrape_matches apiSite html) uniq \<and>
           episodes (scrape_result env apiSite ident html) = map strip_link uniq"
    by (rule exI)
next
  fix m assume "dollar_link m"
  then show "strip_link m = (if 0x28 \<in> set (drop 1 m)
                        then takeWhile (\<lambda>c. c \<noteq> 0x28) (drop 1 m) else drop 1 m)"
    by (rule strip_link_dollar_link(1))
qed

theorem delimited_list_extraction_witness:
  "truthy (vod_play_url ex_item) \<and>
   richest_first
     [[js ''$https://a.example/1.m3u8''],
      [js ''$https://b.example/1.m3u8'', js ''$https://b.example/2.m3u8'',
       js ''$https://b.example/1.m3u8'']]
     (item_matches ex_item) \<and>
   dollar_link (js ''$https://b.example/1.m3u8'') \<and>
   strip_link (js ''$https://b.example/1.m3u8'') = js ''https://b.example/1.m3u8'' \<and>
   episodes (transformApiSearchItem ex_env ex_item ex_site)
     = [js ''https://b.example/1.m3u8'', js ''https://b.example/2.m3u8'']"
proof -
  note ext = delimited_list_extraction[where item = ex_item and env = ex_env and apiSite = ex_site
      and html = "[]" and ident = "[]"]
  from ext ex_item_truthy have 1: "richest_first
     [[js ''$https://a.example/1.m3u8''],
      [js ''$https://b.example/1.m3u8'', js ''$https://b.example/2.m3u8'',
       js ''$https://b.example/1.m3u8'']]
     (item_matches ex_item)"
    by (simp only: ex_item_groups simp_thms)
  from ext have "\<forall>m\<in>set (item_matches ex_item). dollar_link m" by blast
  then have 2: "dollar_link (js ''$https://b.example/1.m3u8'')"
    by (simp add: ex_item_matches)
  from ext have "\<forall>m. dollar_link m \<longrightarrow>
        strip_link m = (if 0x28 \<in> set (drop 1 m)
                        then takeWhile (\<lambda>c. c \<noteq> 0x28) (drop 1 m) else drop 1 m)"
    by blast
  with 2 have "strip_link (js ''$https://b.example/1.m3u8'')
      = (if 0x28 \<in> set (drop 1 (js ''$https://b.example/1.m3u8''))
         then takeWhile (\<lambda>c. c \<noteq> 0x28) (drop 1 (js ''$https://b.example/1.m3u8''))
         else drop 1 (js ''$https://b.example/1.m3u8''))"
    by blast
  then have 3: "strip_link (js ''$https://b.example/1.m3u8'') = js ''https://b.example/1.m3u8''"
    by (simp add: js_def)
  from ex_item_truthy 1 2 3 ex_item_episodes show ?thesis by blast
qed

text \<open>
  The claim as stated fails: two matches that differ only behind the parenthesis are cut
  to the same link, and the link is returned twice.
\<close>

theorem dedupe_after_trim_counterexample:
  "episodes (transformApiSearchItem ex_env ex_paren_item ex_site)
     = [js ''http://a.example/v'', js ''http://a.example/v'']"
  by (rule ex_paren_episodes)

section \<open>Year normalisation\<close>

text \<open>
  C6 (as amended). The year of a normalised item is \<open>unknown\<close> when the raw year field is
  missing or empty; it is the first run of four consecutive digits of the field when
  there is one; and it is the empty string, not \<open>unknown\<close>, when the field is non-empty
  without such a run. This holds for search-item normalisation and for the JSON detail
  branch alike.
\<close>

theorem year_normalization:
  assumes "r = transformApiSearchItem env item apiSite \<or> r = detail_result env apiSite ident item"
  shows "(\<not> truthy (vod_year item) \<longrightarrow> year r = js ''unknown'') \<and>
         (\<forall>y i. vod_year item = Some y \<and> digit_run_at y i \<and> (\<forall>j<i. \<not> digit_run_at y j) \<longrightarrow>
                year r = take 4 (drop i y)) \<and>
         (\<forall>y. vod_year item = Some y \<and> y \<noteq> [] \<and> (\<forall>i. \<not> digit_run_at y i) \<longrightarrow> year r = [])"
proof -
  from assms have "year r = normalize_year (vod_year item)"
    by (auto simp: transformApiSearchItem_def detail_result_def)
  then show ?thesis using normalize_year_cases[of "vod_year item"] by simp
qed

theorem year_normalization_witness:
  "digit_run_at (js ''2011'' @ [0x5E74]) 0 \<and>
   year (transformApiSearchItem ex_env ex_item ex_site) = js ''2011'' \<and>
   \<not> truthy (vod_year (ex_item\<lparr>vod_year := None\<rparr>)) \<and>
   year (detail_result ex_env ex_site (js ''42'') (ex_item\<lparr>vod_year := None\<rparr>)) = js ''unknown''"
proof -
  let ?y = "js ''2011'' @ [0x5E74]"
  have d0: "digit_run_at ?y 0"
    by (simp add: digit_run_at_def js_def is_digit_def)
  have y: "vod_year ex_item = Some ?y" by (simp add: ex_item_def)
  have "\<forall>y i. vod_year ex_item = Some y \<and> digit_run_at y i \<and> (\<forall>j<i. \<not> digit_run_at y j) \<longrightarrow>
          year (transformApiSearchItem ex_env ex_item ex_site) = take 4 (drop i y)"
    using year_normalization[of "transformApiSearchItem ex_env ex_item ex_site" ex_env ex_item ex_site]
    by blast
  then have "vod_year ex_item = Some ?y \<and> digit_run_at ?y 0 \<and> (\<forall>j<0. \<not> digit_run_at ?y j) \<longrightarrow>
          year (transformApiSearchItem ex_env ex_item ex_site) = take 4 (drop 0 ?y)"
    by blast
  with y d0 have 1: "year (transformApiSearchItem ex_env ex_item ex_site) = js ''2011''"
    by (simp add: js_def)
  have n: "\<not> truthy (vod_year (ex_item\<lparr>vod_year := None\<rparr>))" by (simp add: truthy_def)
  have "\<not> truthy (vod_year (ex_item\<lparr>vod_year := None\<rparr>)) \<longrightarrow>
          year (detail_result ex_env ex_site (js ''42'') (ex_item\<lparr>vod_year := None\<rparr>)) = js ''unknown''"
    using year_normalization[of "detail_result ex_env ex_site (js ''42'') (ex_item\<lparr>vod_year := None\<rparr>)"
        ex_env "ex_item\<lparr>vod_year := None\<rparr>" ex_site "js ''42''"]
    by blast
  with n have 2: "year (detail_result ex_env ex_site (js ''42'') (ex_item\<lparr>vod_year := None\<rparr>)) = js ''unknown''"
    by blast
  from d0 1 n 2 show ?thesis by blast
qed

text \<open>
  The claim as stated fails: a non-empty year field without four consecutive digits
  gives the empty string.
\<close>

theorem year_unknown_counterexample:
  "year (transformApiSearchItem ex_env (ex_item\<lparr>vod_year := Some (js ''abc'')\<rparr>) ex_site)
     \<noteq> js ''unknown''"
  by (simp add: transformApiSearchItem_def normalize_year_def year_regex_def exec_at_def
      js_def is_digit_def)

section \<open>The other fields of a detail result\<close>

text \<open>
  C7. The JSON branch of \<open>getDetailFromApi\<close> passes the raw \<open>vod_name\<close> on as the title,
  where search-item normalisation trims it and collapses its runs of white space: for
  the same raw item the two titles differ. The poster, class, year, type and rating id
  agree, and so does the description when the content field is present
  (\<open>detail_fields_agree\<close>).
\<close>

theorem detail_title_not_normalized:
  "fst (getDetailFromApi ex_env (ex_net_of [ex_item]) ex_site (js ''42''))
     = Inr (detail_result ex_env ex_site (js ''42'') ex_item) \<and>
   title (detail_result ex_env ex_site (js ''42'') ex_item) = js '' Foo  Bar '' \<and>
   title (transformApiSearchItem ex_env ex_item ex_site) = js ''Foo Bar''"
  by (simp add: ex_detail_of ex_title_detail ex_title_search)

section \<open>Fallback content scan\<close>

text \<open>
  C8 (as amended). When the structured mode yields no episode and the content field is
  non-empty, the episodes are exactly the matches of the general pattern
  \<open>https?://[^"'\s]+?\.m3u8\<close> in the raw content field, in order of occurrence and with
  repetitions, whether or not a dollar sign stands before them; each is an \<open>http(s)\<close>
  URL ending in \<open>.m3u8\<close> that occurs in the field, and the removal of a leading dollar
  sign never applies.
\<close>

theorem fallback_content_scan:
  assumes "structured_episodes vd = []" and "truthy (vod_content vd)"
  shows "episodes (detail_result env apiSite ident vd)
           = match_all M3U8_PATTERN (or_empty (vod_content vd)) \<and>
         (\<forall>e\<in>set (episodes (detail_result env apiSite ident vd)).
             plain_link e \<and> (\<exists>pre post. or_empty (vod_content vd) = pre @ e @ post))"
proof -
  have eq: "episodes (detail_result env apiSite ident vd)
           = match_all M3U8_PATTERN (or_empty (vod_content vd))"
    using detail_episodes_fallback[OF assms] by (simp add: detail_result_def)
  show ?thesis unfolding eq
    using match_all_M3U8_PATTERN match_all_sublist by blast
qed

theorem fallback_content_scan_witness:
  "structured_episodes ex_content_item = [] \<and> truthy (vod_content ex_content_item) \<and>
   episodes (detail_result ex_env ex_site (js ''42'') ex_content_item)
     = [js ''http://c.example/v.m3u8'', js ''https://d.example/w.m3u8'']"
proof -
  from fallback_content_scan[OF ex_content_structured ex_content_truthy, of ex_env ex_site "js ''42''"]
  have "episodes (detail_result ex_env ex_site (js ''42'') ex_content_item)
          = match_all M3U8_PATTERN (or_empty (vod_content ex_content_item))" by blast
  with ex_content_structured ex_content_truthy show ?thesis
    by (simp only: ex_content_text ex_content_eval simp_thms)
qed

text \<open>
  The claim as stated fails: a link of the content field that no dollar sign precedes is
  returned.
\<close>

theorem fallback_undollared_counterexample:
  "fst (getDetailFromApi ex_env (ex_net_of [ex_content_item]) ex_site (js ''42''))
     = Inr (detail_result ex_env ex_site (js ''42'') ex_content_item) \<and>
   js ''http://c.example/v.m3u8''
     \<in> set (episodes (detail_result ex_env ex_site (js ''42'') ex_content_item))"
proof -
  have "episodes (detail_result ex_env ex_site (js ''42'') ex_content_item)
          = [js ''http://c.example/v.m3u8'', js ''https://d.example/w.m3u8'']"
    using detail_episodes_fallback[OF ex_content_structured ex_content_truthy]
    by (simp add: detail_result_def ex_content_text ex_content_eval)
  then show ?thesis by (simp add: ex_detail_of)
qed

section \<open>Timeouts\<close>

text \<open>
  C9. The requests that \<open>fetchSearchResults\<close> issues carry a timeout of 8000 ms, but the
  page-count request of line 112 is issued without a signal: in the example search the
  second request has no timeout.
\<close>

theorem count_request_without_timeout:
  "map timeout (snd (searchFromApi ex_env ex_net ex_site (js ''a b'')))
     = [Some 8000, None, Some 8000, Some 8000]"
  by (simp add: ex_search search_request_def count_request_def)

section \<open>Only the first element of the list matters\<close>

text \<open>
  C10. For a source without an HTML-detail base, two successful responses whose \<open>list\<close>
  arrays start with the same element give the same result, the one computed from that
  element; the further elements and the page count play no part.
\<close>

theorem detail_depends_on_first_item:
  assumes "\<not> truthy (detail apiSite)"
    and "req = detail_request env (api apiSite @ detail_path env @ ident)"
    and "fetch net1 0 req = Response r1" and "fetch net2 0 req = Response r2"
    and "ok r1" and "ok r2"
    and "body_json r1 = Some (JObject (Arr (x # xs)) pc1)"
    and "body_json r2 = Some (JObject (Arr (x # ys)) pc2)"
  shows "fst (getDetailFromApi env net1 apiSite ident)
           = fst (getDetailFromApi env net2 apiSite ident) \<and>
         fst (getDetailFromApi env net1 apiSite ident)
           = Inr (detail_result env apiSite ident x)"
  using assms by (simp add: getDetailFromApi_json detail_of_fetched_first)

theorem detail_depends_on_first_item_witness:
  "\<not> truthy (detail ex_site) \<and>
   fst (getDetailFromApi ex_env (ex_net_of [ex_item, ex_mp4_item]) ex_site (js ''42''))
     = fst (getDetailFromApi ex_env (ex_net_of [ex_item, ex_paren_item, ex_content_item])
              ex_site (js ''42''))"
proof -
  let ?req = "detail_request ex_env (api ex_site @ detail_path ex_env @ js ''42'')"
  have t: "\<not> truthy (detail ex_site)" by (simp add: ex_site_def truthy_def)
  have f: "fetch (ex_net_of l) 0 ?req = Response (ex_response l None)" for l
    by (simp add: fetch_def ex_net_of_def detail_request_def)
  have k: "ok (ex_response l None)" for l by (simp add: ok_def ex_response_def)
  have b: "body_json (ex_response l None) = Some (JObject (Arr l) None)" for l
    by (simp add: ex_response_def)
  from detail_depends_on_first_item[OF t refl f f k k b b]
  have "fst (getDetailFromApi ex_env (ex_net_of [ex_item, ex_mp4_item]) ex_site (js ''42''))
     = fst (getDetailFromApi ex_env (ex_net_of [ex_item, ex_paren_item, ex_content_item])
              ex_site (js ''42''))"
    by blast
  with t show ?thesis by blast
qed

end
